theory Spec2Isabelle
  imports Main "HOL-Library.Sublist" "HOL-Library.Char_ord" "HOL-Library.List_Lexorder"
begin

section \<open>Bytes, errors and the buffered reader\<close>

text \<open>
  Go strings and byte slices are sequences of bytes: \<open>string\<close> here, one \<open>char\<close> per
  byte.  The three control bytes the client tests for get names.
\<close>

abbreviation LF :: char where "LF \<equiv> CHR 0x0A"
abbreviation CR :: char where "CR \<equiv> CHR 0x0D"
abbreviation TAB :: char where "TAB \<equiv> CHR 0x09"

text \<open>
  Go's error values.  \<open>EOF\<close>, \<open>ErrUnexpectedEOF\<close> are the \<open>io\<close> package's,
  \<open>ErrBufferFull\<close> is \<open>bufio\<close>'s, \<open>NumError\<close> stands for what \<open>strconv\<close> returns,
  \<open>TransportError\<close> for any other failure of the network connection.
  \<open>ProtocolError\<close> and \<open>Error\<close> are the package's own two error types.
  A run-time panic unwinds through every caller; it is the value \<open>Panic\<close>.
\<close>

datatype error =
    EOF
  | ErrUnexpectedEOF
  | ErrBufferFull
  | NumError
  | TransportError string
  | ProtocolError string
  | Error nat string
  | Panic string

text \<open>
  A \<open>bufio.Reader\<close> seen from its caller: the bytes that are still to come
  (\<open>pending\<close>), the error its source reports once they are used up (\<open>fin\<close>, which
  stays the same however often it is asked again), and the byte that \<open>UnreadByte\<close>
  would put back (\<open>lastByte\<close>, \<open>None\<close> for Go's \<open>-1\<close>).
\<close>

record Reader =
  pending :: string
  fin :: error
  lastByte :: "char option"

definition newReader :: "string \<Rightarrow> error \<Rightarrow> Reader" where
  "newReader s e = \<lparr>pending = s, fin = e, lastByte = None\<rparr>"


definition setLast :: "string \<Rightarrow> char option \<Rightarrow> char option" where
  "setLast line old = (if line = [] then old else Some (last line))"

text \<open>
  \<open>ReadBytes(LF)\<close> and \<open>ReadString(LF)\<close>: everything up to and including the
  next newline; without a newline, what is left together with the source's error.
\<close>

definition ReadBytes :: "Reader \<Rightarrow> (string \<times> error option) \<times> Reader" where
  "ReadBytes b =
     (let pre = takeWhile (\<lambda>c. c \<noteq> LF) (pending b);
          post = dropWhile (\<lambda>c. c \<noteq> LF) (pending b)
      in case post of
           [] \<Rightarrow> ((pre, Some (fin b)), b\<lparr>pending := [], lastByte := setLast pre (lastByte b)\<rparr>)
         | x # post' \<Rightarrow> ((pre @ [x], None), b\<lparr>pending := post', lastByte := Some x\<rparr>))"

definition ReadString :: "Reader \<Rightarrow> (string \<times> error option) \<times> Reader" where
  "ReadString b = ReadBytes b"




section \<open>The body reader (article.go)\<close>

definition dotnl :: string where
  "dotnl = [CHR ''.'', LF]"

definition dotdot :: string where
  "dotdot = ''..''"

definition colon :: string where
  "colon = '':''"

text \<open>
  \<open>bodyReader\<close>: the \<open>eof\<close> flag and the buffer holding the rest of the current
  line.  Its pointer to the connection is only used to reach the connection's
  buffered reader, which \<open>Read\<close> takes and returns here.
\<close>

record bodyReader =
  eof :: bool
  buf :: string

definition newBodyReader :: bodyReader where
  "newBodyReader = \<lparr>eof = False, buf = []\<rparr>"

text \<open>
  \<open>Read(p)\<close> with \<open>n = len(p)\<close>.  The result is the bytes copied into \<open>p\<close> and the
  error.  The line that \<open>ReadBytes\<close> returns without an error ends with the
  newline, so it has at least one byte; indexing it at \<open>len(b)-2\<close> panics when it
  has exactly one.
\<close>

definition Read :: "bodyReader \<Rightarrow> Reader \<Rightarrow> nat \<Rightarrow> (string \<times> error option) \<times> bodyReader \<times> Reader" where
  "Read rb cr n =
     (if eof rb then (([], Some EOF), rb, cr)
      else if length (buf rb) = 0 then
        (case ReadBytes cr of
           ((b, Some err), cr') \<Rightarrow> (([], Some err), rb, cr')
         | ((b, None), cr') \<Rightarrow>
             if length b < 2 then
               (([], Some (Panic ''index out of range [-1]'')), rb, cr')
             else
               let b1 = (if b ! (length b - 2) = CR
                         then (take (length b - 1) b)[length b - 2 := LF] else b)
               in if b1 = dotnl then (([], Some EOF), rb\<lparr>eof := True\<rparr>, cr')
                  else
                    let b2 = (if prefix dotdot b1 then drop 1 b1 else b1)
                    in ((take n b2, None), rb\<lparr>buf := drop n b2\<rparr>, cr'))
      else ((take n (buf rb), None), rb\<lparr>buf := drop n (buf rb)\<rparr>, cr))"

text \<open>
  A \<open>Read\<close> into a buffer with room that returns no error makes progress: it takes
  bytes off the connection or out of the line buffer.
\<close>

lemma ReadBytes_line:
  assumes "ReadBytes cr = ((b, None), cr')"
  shows "b \<noteq> [] \<and> length b + length (pending cr') = length (pending cr)"
proof -
  let ?pre = "takeWhile (\<lambda>c. c \<noteq> LF) (pending cr)"
  let ?post = "dropWhile (\<lambda>c. c \<noteq> LF) (pending cr)"
  have len: "length ?pre + length ?post = length (pending cr)"
    by (metis length_append takeWhile_dropWhile_id)
  from assms obtain x post' where post: "?post = x # post'"
    by (cases ?post) (auto simp: ReadBytes_def Let_def)
  with assms have "b = ?pre @ [x]" "pending cr' = post'"
    by (auto simp: ReadBytes_def Let_def)
  with len post show ?thesis by simp
qed

lemma Read_progress:
  assumes "Read rb cr n = ((d, None), rb', cr')" and "0 < n"
  shows "length (buf rb') + length (pending cr') < length (buf rb) + length (pending cr)"
proof (cases "eof rb \<or> buf rb \<noteq> []")
  case True
  with assms show ?thesis
    by (auto simp: Read_def split: if_splits)
next
  case False
  obtain b e cr1 where rb: "ReadBytes cr = ((b, e), cr1)"
    by (metis prod.exhaust)
  with False assms have e: "e = None"
    by (cases e) (auto simp: Read_def)
  from ReadBytes_line [OF rb [unfolded e]]
  have b: "b \<noteq> []" "length b + length (pending cr1) = length (pending cr)" by simp_all
  define b1 where "b1 = (if b ! (length b - 2) = CR
                         then (take (length b - 1) b)[length b - 2 := LF] else b)"
  define b2 where "b2 = (if prefix dotdot b1 then drop 1 b1 else b1)"
  from False assms rb e have long: "2 \<le> length b"
    by (auto simp: Read_def split: if_splits)
  from False assms rb e long have res: "rb' = rb\<lparr>buf := drop n b2\<rparr>" "cr' = cr1"
    by (auto simp: Read_def Let_def b1_def b2_def split: if_splits)
  from long have "length b1 \<le> length b" "b1 \<noteq> []"
    by (auto simp: b1_def)
  then have "length b2 \<le> length b" "b2 \<noteq> []"
    by (auto simp: b2_def dotdot_def prefix_def)
  with \<open>0 < n\<close> have "length (drop n b2) < length b"
    by (cases b2) auto
  with b res False show ?thesis by simp
qed

text \<open>
  \<open>ioutil.ReadAll\<close> calls \<open>Read\<close> with a buffer that always has room (512 bytes to
  start with) until \<open>Read\<close> returns an error, and reports \<open>io.EOF\<close> as success.
\<close>

function ReadAll :: "bodyReader \<Rightarrow> Reader \<Rightarrow> (string \<times> error option) \<times> bodyReader \<times> Reader" where
  "ReadAll rb cr =
     (case Read rb cr 512 of
        ((d, Some err), rb', cr') \<Rightarrow> ((d, if err = EOF then None else Some err), rb', cr')
      | ((d, None), rb', cr') \<Rightarrow>
          (case ReadAll rb' cr' of ((ds, e), rb'', cr'') \<Rightarrow> ((d @ ds, e), rb'', cr'')))"
  by pat_completeness auto
termination
proof (relation "measure (\<lambda>(rb, cr). length (buf rb) + length (pending cr))")
  show "wf (measure (\<lambda>(rb, cr). length (buf rb) + length (pending cr)))" by simp
next
  fix rb cr x y d e rb' cr'
  assume "(x, y) = Read rb cr 512" "(d, e) = x" "e = None" "(rb', cr') = y"
  then have "Read rb cr 512 = ((d, None), rb', cr')" by (metis)
  from Read_progress [OF this]
  show "((rb', cr'), rb, cr) \<in> measure (\<lambda>(rb, cr). length (buf rb) + length (pending cr))"
    by simp
qed

declare ReadAll.simps [simp del]

definition discard :: "bodyReader \<Rightarrow> Reader \<Rightarrow> error option \<times> bodyReader \<times> Reader" where
  "discard rb cr = (case ReadAll rb cr of ((d, err), rb', cr') \<Rightarrow> (err, rb', cr'))"

section \<open>Library functions the connection uses\<close>

text \<open>
  \<open>strings.TrimSpace\<close> removes leading and trailing Unicode white space: the six
  ASCII bytes below and the runes U+0085, U+00A0, U+1680, U+2000 to U+200A, U+2028,
  U+2029, U+202F, U+205F and U+3000, which a Go string holds in their UTF-8
  encoding.
\<close>

definition asciiSpace :: "char \<Rightarrow> bool" where
  "asciiSpace c = (c = TAB \<or> c = LF \<or> c = CHR 0x0B \<or> c = CHR 0x0C \<or> c = CR \<or> c = CHR '' '')"

definition unicodeSpaces :: "string list" where
  "unicodeSpaces =
     [[CHR 0xC2, CHR 0x85], [CHR 0xC2, CHR 0xA0], [CHR 0xE1, CHR 0x9A, CHR 0x80]]
     @ map (\<lambda>k. [CHR 0xE2, CHR 0x80, k])
         [CHR 0x80, CHR 0x81, CHR 0x82, CHR 0x83, CHR 0x84, CHR 0x85, CHR 0x86, CHR 0x87,
          CHR 0x88, CHR 0x89, CHR 0x8A, CHR 0xA8, CHR 0xA9, CHR 0xAF]
     @ [[CHR 0xE2, CHR 0x81, CHR 0x9F], [CHR 0xE3, CHR 0x80, CHR 0x80]]"

text \<open>The number of bytes of the white-space rune a string starts or ends with, 0 for none.\<close>

definition leadingSpace :: "string \<Rightarrow> nat" where
  "leadingSpace s =
     (case s of
        [] \<Rightarrow> 0
      | c # _ \<Rightarrow>
          if asciiSpace c then 1
          else (case filter (\<lambda>e. prefix e s) unicodeSpaces of [] \<Rightarrow> 0 | e # _ \<Rightarrow> length e))"

definition trailingSpace :: "string \<Rightarrow> nat" where
  "trailingSpace s =
     (case rev s of
        [] \<Rightarrow> 0
      | c # _ \<Rightarrow>
          if asciiSpace c then 1
          else (case filter (\<lambda>e. suffix e s) unicodeSpaces of [] \<Rightarrow> 0 | e # _ \<Rightarrow> length e))"

lemma leadingSpace_le: "leadingSpace s \<le> length s"
proof (cases "filter (\<lambda>e. prefix e s) unicodeSpaces")
  case Nil
  then show ?thesis by (cases s) (simp_all add: leadingSpace_def)
next
  case (Cons e es)
  then have "e \<in> set (filter (\<lambda>e. prefix e s) unicodeSpaces)" by simp
  then have "length e \<le> length s" by (simp add: prefix_length_le)
  with Cons show ?thesis by (cases s) (simp_all add: leadingSpace_def)
qed

lemma trailingSpace_le: "trailingSpace s \<le> length s"
proof (cases "filter (\<lambda>e. suffix e s) unicodeSpaces")
  case Nil
  then show ?thesis by (cases s rule: rev_cases) (simp_all add: trailingSpace_def)
next
  case (Cons e es)
  then have "e \<in> set (filter (\<lambda>e. suffix e s) unicodeSpaces)" by simp
  then have "length e \<le> length s" by (simp add: suffix_length_le)
  with Cons show ?thesis by (cases s rule: rev_cases) (simp_all add: trailingSpace_def)
qed

function TrimLeftSpace :: "string \<Rightarrow> string" where
  "TrimLeftSpace s = (if leadingSpace s = 0 then s else TrimLeftSpace (drop (leadingSpace s) s))"
  by pat_completeness auto
termination
proof (relation "measure length")
  show "wf (measure (length :: string \<Rightarrow> nat))" by simp
next
  fix s :: string
  assume "leadingSpace s \<noteq> 0"
  with leadingSpace_le [of s] show "(drop (leadingSpace s) s, s) \<in> measure length"
    by simp
qed

function TrimRightSpace :: "string \<Rightarrow> string" where
  "TrimRightSpace s =
     (if trailingSpace s = 0 then s else TrimRightSpace (take (length s - trailingSpace s) s))"
  by pat_completeness auto
termination
proof (relation "measure length")
  show "wf (measure (length :: string \<Rightarrow> nat))" by simp
next
  fix s :: string
  assume "trailingSpace s \<noteq> 0"
  with trailingSpace_le [of s] show "(take (length s - trailingSpace s) s, s) \<in> measure length"
    by simp
qed

declare TrimLeftSpace.simps [simp del] TrimRightSpace.simps [simp del]

definition TrimSpace :: "string \<Rightarrow> string" where
  "TrimSpace s = TrimRightSpace (TrimLeftSpace s)"

text \<open>
  \<open>strconv.ParseUint(s, 10, 0)\<close> and \<open>strconv.Atoi(s)\<close>: decimal digits only, for
  \<open>Atoi\<close> after an optional sign; the empty string and a value outside the 64-bit
  range are errors.
\<close>

definition isDigit :: "char \<Rightarrow> bool" where
  "isDigit c = (CHR ''0'' \<le> c \<and> c \<le> CHR ''9'')"

definition digitVal :: "char \<Rightarrow> int" where
  "digitVal c = of_char c - of_char CHR ''0''"

definition decimal :: "string \<Rightarrow> int" where
  "decimal s = foldl (\<lambda>a c. 10 * a + digitVal c) 0 s"

definition ParseUint :: "string \<Rightarrow> error + nat" where
  "ParseUint s =
     (if s = [] \<or> \<not> list_all isDigit s then Inl NumError
      else if decimal s < 2 ^ 64 then Inr (nat (decimal s)) else Inl NumError)"

definition Atoi :: "string \<Rightarrow> error + int" where
  "Atoi s =
     (let neg = (s \<noteq> [] \<and> hd s = CHR ''-'');
          ds = (if s \<noteq> [] \<and> (hd s = CHR ''+'' \<or> hd s = CHR ''-'') then tl s else s)
      in if ds = [] \<or> \<not> list_all isDigit ds then Inl NumError
         else if neg then
           (if decimal ds \<le> 2 ^ 63 then Inr (- decimal ds) else Inl NumError)
         else
           (if decimal ds < 2 ^ 63 then Inr (decimal ds) else Inl NumError))"

section \<open>The connection (the protocol engine)\<close>

text \<open>
  \<open>Conn\<close>.  The writer \<open>conn\<close> is the bytes written to the server so far;
  \<open>connErr\<close>, when set, is the error with which every write fails, and
  \<open>connClosed\<close> records that \<open>conn.Close()\<close> was called.  \<open>r\<close> is the buffered reader
  on the server's replies, \<open>br\<close> the outstanding body reader (\<open>None\<close> for \<open>nil\<close>),
  \<open>close\<close> the closed flag.
\<close>

record Conn =
  conn :: string
  connErr :: "error option"
  connClosed :: bool
  r :: Reader
  br :: "bodyReader option"
  close :: bool

definition Fprintf :: "Conn \<Rightarrow> string \<Rightarrow> error option \<times> Conn" where
  "Fprintf c s =
     (case connErr c of
        Some err \<Rightarrow> (Some err, c)
      | None \<Rightarrow> (None, c\<lparr>conn := conn c @ s\<rparr>))"

text \<open>
  \<open>cmd\<close> takes the expected code and the request line as \<open>Sprintf\<close> has formatted
  it.  Like the Go function it returns the code, the text and the error together:
  a reply with an unexpected code comes back with its code, its text and the error
  \<open>Error code text\<close>.
\<close>

definition cmd :: "nat \<Rightarrow> string \<Rightarrow> Conn \<Rightarrow> (nat \<times> string \<times> error option) \<times> Conn" where
  "cmd expectCode request c =
     (if close c then ((0, [], Some (ProtocolError ''connection closed'')), c)
      else
        case (case br c of
                None \<Rightarrow> (None, c)
              | Some rb \<Rightarrow>
                  (case discard rb (r c) of
                     (Some err, rb', cr') \<Rightarrow> (Some err, c\<lparr>r := cr', br := Some rb'\<rparr>)
                   | (None, rb', cr') \<Rightarrow> (None, c\<lparr>r := cr', br := None\<rparr>))) of
          (Some err, c1) \<Rightarrow> ((0, [], Some err), c1)
        | (None, c1) \<Rightarrow>
            (case Fprintf c1 (request @ [CR, LF]) of
               (Some err, c2) \<Rightarrow> ((0, [], Some err), c2)
             | (None, c2) \<Rightarrow>
                 (case ReadString (r c2) of
                    ((line, Some err), cr') \<Rightarrow> ((0, [], Some err), c2\<lparr>r := cr'\<rparr>)
                  | ((line, None), cr') \<Rightarrow>
                      let c3 = c2\<lparr>r := cr'\<rparr>;
                          line = TrimSpace line
                      in if length line < 4 \<or> line ! 3 \<noteq> CHR '' '' then
                           ((0, [], Some (ProtocolError (''short response: '' @ line))), c3)
                         else
                           (case ParseUint (take 3 line) of
                              Inl _ \<Rightarrow>
                                ((0, [], Some (ProtocolError (''invalid response code: '' @ line))), c3)
                            | Inr code \<Rightarrow>
                                let line = drop 4 line
                                in if 1 \<le> expectCode \<and> expectCode < 10 \<and> code div 100 \<noteq> expectCode
                                      \<or> 10 \<le> expectCode \<and> expectCode < 100 \<and> code div 10 \<noteq> expectCode
                                      \<or> 100 \<le> expectCode \<and> expectCode < 1000 \<and> code \<noteq> expectCode
                                   then ((code, line, Some (Error code line)), c3)
                                   else ((code, line, None), c3)))))"

text \<open>
  \<open>newConn\<close> on a transport whose server sends the bytes \<open>s\<close> and then fails with
  \<open>e\<close>: it reads the greeting line and returns the connection together with the
  error of that read.
\<close>

definition newConn :: "string \<Rightarrow> error \<Rightarrow> Conn \<times> error option" where
  "newConn s e =
     (let res = \<lparr>conn = [], connErr = None, connClosed = False, r = newReader s e,
                 br = None, close = False\<rparr>
      in case ReadString (r res) of ((line, err), cr') \<Rightarrow> (res\<lparr>r := cr'\<rparr>, err))"

text \<open>
  The wire format of a status line is three decimal digits, a space and the text;
  \<open>digits3\<close> writes a code below 1000 that way, as \<open>Sprintf("%03d")\<close> does in
  \<open>Error.Error\<close>.
\<close>

definition digitChar :: "nat \<Rightarrow> char" where
  "digitChar k = ''0123456789'' ! k"

definition digits3 :: "nat \<Rightarrow> string" where
  "digits3 n = [digitChar (n div 100), digitChar (n div 10 mod 10), digitChar (n mod 10)]"

section \<open>Posting\<close>

text \<open>
  \<open>RawPost\<close>.  The article is read through a buffered reader of its own, \<open>pr\<close>.
  The loop writes each line with its newline replaced by carriage return and
  newline, and with a dot in front when the line starts with one; a last line
  without a newline is written the same way.  After the loop the command \<open>.\<close>
  sends the sentinel line.
\<close>

function RawPost_loop :: "Reader \<Rightarrow> Conn \<Rightarrow> error option \<times> Reader \<times> Conn" where
  "RawPost_loop pr c =
     (case ReadString pr of
        ((line, err), pr') \<Rightarrow>
          if err \<noteq> None \<and> err \<noteq> Some EOF then (err, pr', c)
          else
            let atEOF = (err = Some EOF)
            in if atEOF \<and> length line = 0 then (None, pr', c)
               else
                 let line = (if suffix [LF] line then take (length line - 1) line else line);
                     pfx = (if prefix ''.'' line then ''.'' else [])
                 in (case Fprintf c (pfx @ line @ [CR, LF]) of
                       (Some werr, c') \<Rightarrow> (Some werr, pr', c')
                     | (None, c') \<Rightarrow>
                         if atEOF then (None, pr', c') else RawPost_loop pr' c'))"
  by pat_completeness auto
termination
proof (relation "measure (\<lambda>(pr, c). length (pending pr))")
  show "wf (measure (\<lambda>(pr, c). length (pending pr)))" by simp
next
  fix pr :: Reader and c c' :: Conn and x pr' line err and atEOF :: bool
  assume "(x, pr') = ReadString pr" "(line, err) = x"
    and "\<not> (err \<noteq> None \<and> err \<noteq> Some EOF)" "atEOF = (err = Some EOF)" "\<not> atEOF"
  then have "ReadBytes pr = ((line, None), pr')" by (simp add: ReadString_def)
  from ReadBytes_line [OF this]
  show "((pr', c'), pr, c) \<in> measure (\<lambda>(pr, c). length (pending pr))"
    by (cases line) auto
qed

declare RawPost_loop.simps [simp del]

definition RawPost :: "Reader \<Rightarrow> Conn \<Rightarrow> error option \<times> Conn" where
  "RawPost article c =
     (case cmd 3 ''POST'' c of
        ((code, line, Some err), c1) \<Rightarrow> (Some err, c1)
      | ((code, line, None), c1) \<Rightarrow>
          (case RawPost_loop article c1 of
             (Some err, pr', c2) \<Rightarrow> (Some err, c2)
           | (None, pr', c2) \<Rightarrow>
               (case cmd 240 ''.'' c2 of ((code, line, err), c3) \<Rightarrow> (err, c3))))"

section \<open>Notions used in the statements\<close>

text \<open>
  A line of a multi-line block as it travels, without its newline: \<open>payload\<close> is the
  line without the carriage return before the newline, \<open>unstuff\<close> takes the first
  of two leading dots away.  The sentinel is the line whose payload is a single dot.
\<close>

definition payload :: "string \<Rightarrow> string" where
  "payload raw = (if raw \<noteq> [] \<and> last raw = CR then butlast raw else raw)"

definition unstuff :: "string \<Rightarrow> string" where
  "unstuff p = (if prefix ''..'' p then tl p else p)"

text \<open>\<open>prepend d\<close> puts the bytes \<open>d\<close> in front of the data of a read result.\<close>

definition prepend :: "string \<Rightarrow> (string \<times> 'e) \<times> 's \<Rightarrow> (string \<times> 'e) \<times> 's" where
  "prepend d res = (case res of ((ds, e), st) \<Rightarrow> ((d @ ds, e), st))"

text \<open>A payload line as it travels: free of newlines, not empty, and not the sentinel.\<close>

definition bodyLine :: "string \<Rightarrow> bool" where
  "bodyLine raw = (LF \<notin> set raw \<and> raw \<noteq> [] \<and> payload raw \<noteq> ''.'')"

section \<open>Line lists and their decoders\<close>

text \<open>
  \<open>strings.SplitN(s, sep, n)\<close> for a separator of one byte and \<open>n \<ge> 0\<close>: it cuts
  at the first \<open>n - 1\<close> separators.  \<open>strings.Split\<close> cuts at all of them, which is
  \<open>SplitN\<close> with one more than their number.
\<close>

fun SplitN :: "string \<Rightarrow> char \<Rightarrow> nat \<Rightarrow> string list" where
  "SplitN s sep 0 = []"
| "SplitN s sep (Suc n) =
     (if n = 0 \<or> sep \<notin> set s then [s]
      else takeWhile (\<lambda>c. c \<noteq> sep) s # SplitN (tl (dropWhile (\<lambda>c. c \<noteq> sep) s)) sep n)"

definition Split :: "string \<Rightarrow> char \<Rightarrow> string list" where
  "Split s sep = SplitN s sep (Suc (count_list s sep))"

text \<open>\<open>strconv.Itoa\<close>, which also is what \<open>Sprintf\<close> does for \<open>%d\<close>.\<close>

function natString :: "nat \<Rightarrow> string" where
  "natString n = (if n < 10 then [digitChar n] else natString (n div 10) @ [digitChar (n mod 10)])"
  by pat_completeness auto
termination
  by (relation "measure (\<lambda>n. n)") auto

declare natString.simps [simp del]

definition Itoa :: "int \<Rightarrow> string" where
  "Itoa i = (if i < 0 then CHR ''-'' # natString (nat (- i)) else natString (nat i))"

text \<open>
  \<open>readStrings\<close>: the loop reads lines off the connection's reader, takes the line
  ending away and stops at the line that is a single dot.  Any read error, the end
  of the stream included, returns \<open>nil\<close> and the error.
\<close>

function readStrings_loop :: "string list \<Rightarrow> Reader \<Rightarrow> (string list \<times> error option) \<times> Reader" where
  "readStrings_loop sv cr =
     (case ReadString cr of
        ((line, Some err), cr') \<Rightarrow> (([], Some err), cr')
      | ((line, None), cr') \<Rightarrow>
          let line = (if suffix [CR, LF] line then take (length line - 2) line
                      else if suffix [LF] line then take (length line - 1) line
                      else line)
          in if line = ''.'' then ((sv, None), cr')
             else readStrings_loop (sv @ [line]) cr')"
  by pat_completeness auto
termination
proof (relation "measure (\<lambda>(sv, cr). length (pending cr))")
  show "wf (measure (\<lambda>(sv, cr). length (pending cr)))" by simp
next
  fix sv :: "string list" and cr x cr' line e ln
  assume "(x, cr') = ReadString cr" "(line, e) = x" "e = None"
  then have "ReadBytes cr = ((line, None), cr')" by (simp add: ReadString_def)
  from ReadBytes_line [OF this]
  show "((sv @ [ln], cr'), sv, cr) \<in> measure (\<lambda>(sv, cr). length (pending cr))"
    by (cases line) auto
qed

declare readStrings_loop.simps [simp del]

definition readStrings :: "Conn \<Rightarrow> (string list \<times> error option) \<times> Conn" where
  "readStrings c = (case readStrings_loop [] (r c) of (res, cr') \<Rightarrow> (res, c\<lparr>r := cr'\<rparr>))"

text \<open>
  \<open>NewNews\<close>.  The time argument is the string \<open>since.Format(timeFormatNew)\<close>.
  \<open>sort.Strings\<close> orders the slice by the byte-wise order of Go strings, and the
  loop then moves the first element of every run of equal neighbours to the front
  of the same slice.
\<close>

function NewNews_loop :: "string list \<Rightarrow> nat \<Rightarrow> nat \<Rightarrow> string list \<times> nat" where
  "NewNews_loop ids i w =
     (if i < length ids then
        (let s = ids ! i
         in if i = 0 \<or> ids ! (i - 1) \<noteq> s then NewNews_loop (ids[w := s]) (i + 1) (w + 1)
            else NewNews_loop ids (i + 1) w)
      else (ids, w))"
  by pat_completeness auto
termination
  by (relation "measure (\<lambda>(ids, i, w). length ids - i)") auto

declare NewNews_loop.simps [simp del]

definition NewNews :: "string \<Rightarrow> string \<Rightarrow> Conn \<Rightarrow> (string list \<times> error option) \<times> Conn" where
  "NewNews grp since c =
     (case cmd 230 (''NEWNEWS '' @ grp @ '' '' @ since @ '' GMT'') c of
        ((code, line, Some err), c1) \<Rightarrow> (([], Some err), c1)
      | ((code, line, None), c1) \<Rightarrow>
          (case readStrings c1 of
             ((ids, Some err), c2) \<Rightarrow> (([], Some err), c2)
           | ((ids, None), c2) \<Rightarrow>
               (case NewNews_loop (sort ids) 0 0 of
                  (ids', w) \<Rightarrow> ((take w ids', None), c2))))"

text \<open>
  \<open>Overview\<close>.  Its date parser \<open>parseDate\<close> is not among the sources at hand and is
  a parameter, as is the type of times with its zero value \<open>time.Time{}\<close>.
\<close>

record 't MessageOverview =
  MessageNumber :: int
  Subject :: string
  From :: string
  Date :: 't
  MessageId :: string
  References :: "string list"
  Bytes :: int
  Lines :: int
  Extra :: "string list"

fun Overview_loop ::
  "(string \<Rightarrow> error + 't) \<Rightarrow> 't \<Rightarrow> 't MessageOverview list \<Rightarrow> string list
     \<Rightarrow> 't MessageOverview list \<times> error option" where
  "Overview_loop parseDate zero result [] = (result, None)"
| "Overview_loop parseDate zero result (line # lines) =
     (let ss = SplitN (TrimSpace line) TAB 9
      in if length ss < 8 then
           ([], Some (ProtocolError
                  (''short header listing line: '' @ line @ Itoa (int (length ss)))))
         else
           (case Atoi (ss ! 0) of
              Inl _ \<Rightarrow>
                ([], Some (ProtocolError
                       (''bad message number '' @ [CHR 0x27] @ ss ! 0 @ [CHR 0x27]
                        @ '' in line: '' @ line)))
            | Inr number \<Rightarrow>
                let date = (case parseDate (ss ! 3) of Inl _ \<Rightarrow> zero | Inr t \<Rightarrow> t)
                in (case Atoi (ss ! 6) of
                      Inl _ \<Rightarrow>
                        ([], Some (ProtocolError
                               (''bad byte count '' @ [CHR 0x27] @ ss ! 6 @ [CHR 0x27]
                                @ ''in line:'' @ line)))
                    | Inr bytes \<Rightarrow>
                        (case Atoi (ss ! 7) of
                           Inl _ \<Rightarrow>
                             ([], Some (ProtocolError
                                    (''bad line count '' @ [CHR 0x27] @ ss ! 7 @ [CHR 0x27]
                                     @ ''in line:'' @ line)))
                         | Inr lns \<Rightarrow>
                             Overview_loop parseDate zero
                               (result @
                                [\<lparr>MessageNumber = number, Subject = ss ! 1, From = ss ! 2,
                                  Date = date, MessageId = ss ! 4,
                                  References = Split (ss ! 5) (CHR '' ''),
                                  Bytes = bytes, Lines = lns, Extra = drop 8 ss\<rparr>])
                               lines))))"

definition Overview ::
  "(string \<Rightarrow> error + 't) \<Rightarrow> 't \<Rightarrow> int \<Rightarrow> int \<Rightarrow> Conn
     \<Rightarrow> ('t MessageOverview list \<times> error option) \<times> Conn" where
  "Overview parseDate zero begin end c =
     (case cmd 224 (''OVER '' @ Itoa begin @ ''-'' @ Itoa end) c of
        ((code, line, Some err), c1) \<Rightarrow> (([], Some err), c1)
      | ((code, line, None), c1) \<Rightarrow>
          (case readStrings c1 of
             ((lines, Some err), c2) \<Rightarrow> (([], Some err), c2)
           | ((lines, None), c2) \<Rightarrow> (Overview_loop parseDate zero [] lines, c2)))"

text \<open>
  \<open>Group\<close> returns \<open>number\<close>, \<open>low\<close>, \<open>high\<close> and the error.  The three results
  are assigned after the loop over the first three fields, so every error return
  carries three zeros.
\<close>

definition Group :: "string \<Rightarrow> Conn \<Rightarrow> (int \<times> int \<times> int \<times> error option) \<times> Conn" where
  "Group grp c =
     (case cmd 211 (''GROUP '' @ grp) c of
        ((code, line, Some err), c1) \<Rightarrow> ((0, 0, 0, Some err), c1)
      | ((code, line, None), c1) \<Rightarrow>
          let ss = SplitN line (CHR '' '') 4
          in if length ss < 3 then
               ((0, 0, 0, Some (ProtocolError (''bad group response: '' @ line))), c1)
             else
               (case Atoi (ss ! 0) of
                  Inl _ \<Rightarrow> ((0, 0, 0, Some (ProtocolError (''bad group response: '' @ line))), c1)
                | Inr n0 \<Rightarrow>
                    (case Atoi (ss ! 1) of
                       Inl _ \<Rightarrow>
                         ((0, 0, 0, Some (ProtocolError (''bad group response: '' @ line))), c1)
                     | Inr n1 \<Rightarrow>
                         (case Atoi (ss ! 2) of
                            Inl _ \<Rightarrow>
                              ((0, 0, 0, Some (ProtocolError (''bad group response: '' @ line))), c1)
                          | Inr n2 \<Rightarrow> ((n0, n1, n2, None), c1)))))"

text \<open>What the loop of \<open>NewNews\<close> keeps of a list whose predecessor is \<open>prev\<close>.\<close>

fun firstOfRuns :: "'a option \<Rightarrow> 'a list \<Rightarrow> 'a list" where
  "firstOfRuns prev [] = []"
| "firstOfRuns prev (x # xs) =
     (if prev = Some x then firstOfRuns (Some x) xs else x # firstOfRuns (Some x) xs)"

text \<open>
  The fields of an overview line, the lines \<open>Overview\<close> rejects, and the row it
  builds from a line it accepts.
\<close>

definition overviewFields :: "string \<Rightarrow> string list" where
  "overviewFields line = SplitN (TrimSpace line) TAB 9"

definition overviewBad :: "string \<Rightarrow> bool" where
  "overviewBad line =
     (length (overviewFields line) < 8
      \<or> isl (Atoi (overviewFields line ! 0))
      \<or> isl (Atoi (overviewFields line ! 6))
      \<or> isl (Atoi (overviewFields line ! 7)))"

definition overviewRow :: "(string \<Rightarrow> error + 't) \<Rightarrow> 't \<Rightarrow> string \<Rightarrow> 't MessageOverview" where
  "overviewRow parseDate zero line =
     \<lparr>MessageNumber = projr (Atoi (overviewFields line ! 0)),
      Subject = overviewFields line ! 1,
      From = overviewFields line ! 2,
      Date = (case parseDate (overviewFields line ! 3) of Inl _ \<Rightarrow> zero | Inr t \<Rightarrow> t),
      MessageId = overviewFields line ! 4,
      References = Split (overviewFields line ! 5) (CHR '' ''),
      Bytes = projr (Atoi (overviewFields line ! 6)),
      Lines = projr (Atoi (overviewFields line ! 7)),
      Extra = drop 8 (overviewFields line)\<rparr>"

definition overviewError :: "string \<Rightarrow> error" where
  "overviewError line =
     (if length (overviewFields line) < 8 then
        ProtocolError (''short header listing line: '' @ line
                       @ Itoa (int (length (overviewFields line))))
      else if isl (Atoi (overviewFields line ! 0)) then
        ProtocolError (''bad message number '' @ [CHR 0x27] @ overviewFields line ! 0
                       @ [CHR 0x27] @ '' in line: '' @ line)
      else if isl (Atoi (overviewFields line ! 6)) then
        ProtocolError (''bad byte count '' @ [CHR 0x27] @ overviewFields line ! 6
                       @ [CHR 0x27] @ ''in line:'' @ line)
      else
        ProtocolError (''bad line count '' @ [CHR 0x27] @ overviewFields line ! 7
                       @ [CHR 0x27] @ ''in line:'' @ line))"

text \<open>
  The lines of a text, without their newlines; a last line without a newline counts.
  \<open>stuffLine\<close> is a line as posted: a dot doubled at its start, and the line ending.
\<close>

function linesOf :: "string \<Rightarrow> string list" where
  "linesOf s =
     (if s = [] then []
      else if LF \<in> set s then
        takeWhile (\<lambda>c. c \<noteq> LF) s # linesOf (tl (dropWhile (\<lambda>c. c \<noteq> LF) s))
      else [s])"
  by pat_completeness auto
termination
proof (relation "measure length")
  show "wf (measure (length :: string \<Rightarrow> nat))" by simp
next
  fix s :: string
  assume "s \<noteq> []" "LF \<in> set s"
  then have "dropWhile (\<lambda>c. c \<noteq> LF) s \<noteq> []" by simp
  then have "length (tl (dropWhile (\<lambda>c. c \<noteq> LF) s)) < length (dropWhile (\<lambda>c. c \<noteq> LF) s)"
    by simp
  also have "\<dots> \<le> length s" by (rule length_dropWhile_le)
  finally show "(tl (dropWhile (\<lambda>c. c \<noteq> LF) s), s) \<in> measure length" by simp
qed

declare linesOf.simps [simp del]

definition stuffLine :: "string \<Rightarrow> string" where
  "stuffLine x = (if prefix ''.'' x then ''.'' else []) @ x @ [CR, LF]"

section \<open>The header parser (misc.go)\<close>




















subsection \<open>Header blocks\<close>











section \<open>Auxiliary facts\<close>

subsection \<open>Reading a status line\<close>

lemma ReadBytes_line_eq:
  assumes "pending b = raw @ LF # rest" and "LF \<notin> set raw"
  shows "ReadBytes b = ((raw @ [LF], None), b\<lparr>pending := rest, lastByte := Some LF\<rparr>)"
proof -
  from assms(2) have "takeWhile (\<lambda>c. c \<noteq> LF) (raw @ LF # rest) = raw"
    by (induction raw) auto
  moreover from assms(2) have "dropWhile (\<lambda>c. c \<noteq> LF) (raw @ LF # rest) = LF # rest"
    by (induction raw) auto
  ultimately show ?thesis using assms(1) by (simp add: ReadBytes_def)
qed

lemma digit_char:
  assumes "k < 10"
  shows "isDigit (digitChar k)" and "digitVal (digitChar k) = int k"
proof -
  from assms have "k \<in> {0, 1, 2, 3, 4, 5, 6, 7, 8, 9}" by auto
  then show "isDigit (digitChar k)" and "digitVal (digitChar k) = int k"
    by (auto simp: isDigit_def digitVal_def digitChar_def)
qed

lemma decimal3: "decimal [a, b, c] = 100 * digitVal a + 10 * digitVal b + digitVal c"
  by (simp add: decimal_def)

lemma ParseUint_digits3:
  assumes "n < 1000"
  shows "ParseUint (digits3 n) = Inr n"
proof -
  define x y z where "x = n div 100" and "y = n div 10 mod 10" and "z = n mod 10"
  have "n < 10 * 100" using assms by simp
  then have "x < 10" unfolding x_def by (rule less_mult_imp_div_less)
  moreover have "y < 10" "z < 10" unfolding y_def z_def by (rule mod_less_divisor, simp)+
  ultimately have a: "x < 10" "y < 10" "z < 10" by blast+
  have "n = 10 * (n div 10) + z" "n div 10 = 10 * (n div 10 div 10) + y"
    unfolding y_def z_def by simp_all
  moreover have "n div 10 div 10 = x" unfolding x_def by (simp add: div_mult2_eq [symmetric])
  ultimately have n: "n = 100 * x + 10 * y + z" by linarith
  have ds: "digits3 n = [digitChar x, digitChar y, digitChar z]"
    by (simp add: digits3_def x_def y_def z_def)
  have "decimal (digits3 n) = 100 * int x + 10 * int y + int z"
    unfolding ds decimal3 using a by (simp only: digit_char)
  also have "\<dots> = int n" unfolding n by simp
  finally have d: "decimal (digits3 n) = int n" .
  have "list_all isDigit (digits3 n)" unfolding ds using a by (simp add: digit_char)
  moreover have "digits3 n \<noteq> []" by (simp add: ds)
  moreover have "int n < 2 ^ 64" using assms by simp
  ultimately show ?thesis unfolding ParseUint_def d by simp
qed


lemma cmd_reply:
  assumes "\<not> close c" and "br c = None" and "connErr c = None"
    and "pending (r c) = raw @ LF # rest" and "LF \<notin> set raw"
    and "4 \<le> length (TrimSpace (raw @ [LF]))" and "TrimSpace (raw @ [LF]) ! 3 = CHR '' ''"
    and "ParseUint (take 3 (TrimSpace (raw @ [LF]))) = Inr code"
  shows "cmd e request c =
           ((code, drop 4 (TrimSpace (raw @ [LF])),
             if 1 \<le> e \<and> e < 10 \<and> code div 100 \<noteq> e
                \<or> 10 \<le> e \<and> e < 100 \<and> code div 10 \<noteq> e
                \<or> 100 \<le> e \<and> e < 1000 \<and> code \<noteq> e
             then Some (Error code (drop 4 (TrimSpace (raw @ [LF])))) else None),
            c\<lparr>conn := conn c @ request @ [CR, LF],
              r := (r c)\<lparr>pending := rest, lastByte := Some LF\<rparr>\<rparr>)"
proof -
  define t where "t = TrimSpace (raw @ [LF])"
  from assms(4,5) have rd: "ReadString (r c) = ((raw @ [LF], None), (r c)\<lparr>pending := rest, lastByte := Some LF\<rparr>)"
    by (simp add: ReadString_def ReadBytes_line_eq)
  have t: "\<not> length t < 4" "t ! 3 = CHR '' ''" "ParseUint (take 3 t) = Inr code"
    using assms(6,7,8) by (simp_all add: t_def)
  show ?thesis
    unfolding cmd_def Fprintf_def t_def [symmetric]
    using assms(1,2,3) t
    by (simp add: rd t_def [symmetric] Let_def del: append.simps)
qed

lemma cmd_status:
  assumes "\<not> close c" and "br c = None" and "connErr c = None"
    and "pending (r c) = raw @ LF # rest" and "LF \<notin> set raw"
    and "TrimSpace (raw @ [LF]) = digits3 code @ CHR '' '' # msg"
    and "code < 1000"
  shows "cmd e request c =
           ((code, msg,
             if 1 \<le> e \<and> e < 10 \<and> code div 100 \<noteq> e
                \<or> 10 \<le> e \<and> e < 100 \<and> code div 10 \<noteq> e
                \<or> 100 \<le> e \<and> e < 1000 \<and> code \<noteq> e
             then Some (Error code msg) else None),
            c\<lparr>conn := conn c @ request @ [CR, LF],
              r := (r c)\<lparr>pending := rest, lastByte := Some LF\<rparr>\<rparr>)"
proof -
  let ?line = "digits3 code @ CHR '' '' # msg"
  have l3: "length (digits3 code) = 3" by (simp add: digits3_def)
  have line: "4 \<le> length ?line" "?line ! 3 = CHR '' ''" "take 3 ?line = digits3 code" "drop 4 ?line = msg"
    using l3 by (simp_all add: nth_append)
  have p: "ParseUint (take 3 (TrimSpace (raw @ [LF]))) = Inr code"
    unfolding assms(6) line(3) by (rule ParseUint_digits3 [OF assms(7)])
  have "4 \<le> length (TrimSpace (raw @ [LF]))" "TrimSpace (raw @ [LF]) ! 3 = CHR '' ''"
    unfolding assms(6) by (rule line)+
  from cmd_reply [OF assms(1-5) this p, of e request]
  show ?thesis unfolding assms(6) line(4) .
qed

subsection \<open>Reading a body to its end\<close>

lemma prepend_simps [simp]:
  "prepend d ((ds, e), st) = ((d @ ds, e), st)"
  "prepend [] res = res"
  "prepend d (prepend d' res) = prepend (d @ d') res"
  by (auto simp: prepend_def split: prod.splits)

lemma ReadAll_unfold:
  "ReadAll rb cr =
     (case Read rb cr 512 of
        ((d, Some err), st) \<Rightarrow> ((d, if err = EOF then None else Some err), st)
      | ((d, None), rb', cr') \<Rightarrow> prepend d (ReadAll rb' cr'))"
  by (subst ReadAll.simps) (simp add: prepend_def split: prod.splits option.splits)

lemma canon_line:
  assumes "raw \<noteq> []"
  shows "(if (raw @ [LF]) ! (length (raw @ [LF]) - 2) = CR
          then (take (length (raw @ [LF]) - 1) (raw @ [LF]))[length (raw @ [LF]) - 2 := LF]
          else raw @ [LF]) = payload raw @ [LF]"
proof -
  from assms obtain xs y where raw: "raw = xs @ [y]" by (cases raw rule: rev_cases) auto
  have "(xs @ [y, LF]) ! length xs = y" by (simp add: nth_append)
  then show ?thesis by (simp add: raw payload_def list_update_append)
qed

lemma Read_line:
  assumes "\<not> eof rb" and "buf rb = []"
    and "pending cr = raw @ LF # rest" and "LF \<notin> set raw" and "raw \<noteq> []"
  shows "Read rb cr n =
           (if payload raw = ''.'' then
              (([], Some EOF), rb\<lparr>eof := True\<rparr>, cr\<lparr>pending := rest, lastByte := Some LF\<rparr>)
            else
              ((take n (unstuff (payload raw) @ [LF]), None),
               rb\<lparr>buf := drop n (unstuff (payload raw) @ [LF])\<rparr>,
               cr\<lparr>pending := rest, lastByte := Some LF\<rparr>))"
proof -
  define b where "b = raw @ [LF]"
  define b1 where "b1 = (if b ! (length b - 2) = CR
                         then (take (length b - 1) b)[length b - 2 := LF] else b)"
  define b2 where "b2 = (if prefix dotdot b1 then drop 1 b1 else b1)"
  have rd: "ReadBytes cr = ((b, None), cr\<lparr>pending := rest, lastByte := Some LF\<rparr>)"
    unfolding b_def using assms(3,4) by (rule ReadBytes_line_eq)
  have len: "\<not> length b < 2" unfolding b_def using assms(5) by (cases raw) auto
  have R: "Read rb cr n =
             (if b1 = dotnl then (([], Some EOF), rb\<lparr>eof := True\<rparr>, cr\<lparr>pending := rest, lastByte := Some LF\<rparr>)
              else ((take n b2, None), rb\<lparr>buf := drop n b2\<rparr>, cr\<lparr>pending := rest, lastByte := Some LF\<rparr>))"
    unfolding Read_def rd b1_def b2_def using assms(1,2) len by (simp add: Let_def)
  have c: "b1 = payload raw @ [LF]"
    unfolding b1_def b_def by (rule canon_line [OF assms(5)])
  have pre: "prefix dotdot (payload raw @ [LF]) \<longleftrightarrow> prefix ''..'' (payload raw)"
    by (cases "payload raw" rule: list.exhaust; cases "tl (payload raw)") (auto simp: dotdot_def)
  have un: "b2 = unstuff (payload raw) @ [LF]"
    unfolding b2_def c pre unstuff_def by (cases "payload raw") (auto simp: drop_Suc)
  have dn: "b1 = dotnl \<longleftrightarrow> payload raw = ''.''"
    unfolding c by (simp add: dotnl_def)
  show ?thesis unfolding R un dn ..
qed


lemma ReadAll_buffered:
  assumes "\<not> eof rb"
  shows "ReadAll rb cr = prepend (buf rb) (ReadAll (rb\<lparr>buf := []\<rparr>) cr)"
  using assms
proof (induction "length (buf rb)" arbitrary: rb rule: less_induct)
  case less
  show ?case
  proof (cases "buf rb = []")
    case True
    then have h: "rb\<lparr>buf := []\<rparr> = rb" by (cases rb) simp
    show ?thesis unfolding h by (simp add: True)
  next
    case False
    let ?rb = "rb\<lparr>buf := drop 512 (buf rb)\<rparr>"
    from False less.prems have R: "Read rb cr 512 = ((take 512 (buf rb), None), ?rb, cr)"
      by (simp add: Read_def)
    from False have "length (buf ?rb) < length (buf rb)" by simp
    from less.hyps [OF this] less.prems
    have "ReadAll ?rb cr = prepend (drop 512 (buf rb)) (ReadAll (rb\<lparr>buf := []\<rparr>) cr)"
      by simp
    then show ?thesis
      by (subst ReadAll_unfold) (simp add: R)
  qed
qed

lemma ReadAll_line:
  assumes "\<not> eof rb" and "buf rb = []"
    and "pending cr = raw @ LF # rest" and "LF \<notin> set raw" and "raw \<noteq> []"
    and "payload raw \<noteq> ''.''"
  shows "ReadAll rb cr =
           prepend (unstuff (payload raw) @ [LF])
             (ReadAll rb (cr\<lparr>pending := rest, lastByte := Some LF\<rparr>))"
proof -
  define b where "b = unstuff (payload raw) @ [LF]"
  let ?cr = "cr\<lparr>pending := rest, lastByte := Some LF\<rparr>"
  have R: "Read rb cr 512 = ((take 512 b, None), rb\<lparr>buf := drop 512 b\<rparr>, ?cr)"
    unfolding b_def using Read_line [OF assms(1-5), of 512] assms(6) by simp
  have "ReadAll (rb\<lparr>buf := drop 512 b\<rparr>) ?cr
          = prepend (drop 512 b) (ReadAll (rb\<lparr>buf := drop 512 b\<rparr>\<lparr>buf := []\<rparr>) ?cr)"
    using ReadAll_buffered [of "rb\<lparr>buf := drop 512 b\<rparr>" ?cr] assms(1) by simp
  moreover have "rb\<lparr>buf := drop 512 b\<rparr>\<lparr>buf := []\<rparr> = rb" using assms(2) by (cases rb) simp
  ultimately have "ReadAll (rb\<lparr>buf := drop 512 b\<rparr>) ?cr = prepend (drop 512 b) (ReadAll rb ?cr)"
    by (simp only:)
  then have "ReadAll rb cr = prepend b (ReadAll rb ?cr)"
    by (subst ReadAll_unfold) (simp add: R)
  then show ?thesis unfolding b_def .
qed

lemma ReadAll_sentinel:
  assumes "\<not> eof rb" and "buf rb = []"
    and "pending cr = raw @ LF # rest" and "payload raw = ''.''"
  shows "ReadAll rb cr = (([], None), rb\<lparr>eof := True\<rparr>, cr\<lparr>pending := rest, lastByte := Some LF\<rparr>)"
proof -
  from assms(4) have raw: "raw = ''.'' \<or> raw = ''.'' @ [CR]"
    by (cases raw rule: rev_cases) (auto simp: payload_def split: if_splits)
  then have "LF \<notin> set raw" "raw \<noteq> []" by auto
  from Read_line [OF assms(1-3) this, of 512] assms(4)
  show ?thesis by (subst ReadAll_unfold) simp
qed

lemma ReadAll_body:
  assumes "\<not> eof rb" and "buf rb = []"
    and "pending cr = concat (map (\<lambda>x. x @ [LF]) ls) @ raw @ LF # rest"
    and "list_all bodyLine ls" and "payload raw = ''.''"
  shows "ReadAll rb cr =
           ((concat (map (\<lambda>x. unstuff (payload x) @ [LF]) ls), None),
            rb\<lparr>eof := True\<rparr>, cr\<lparr>pending := rest, lastByte := Some LF\<rparr>)"
  using assms(3,4)
proof (induction ls arbitrary: cr)
  case Nil
  then show ?case using ReadAll_sentinel [OF assms(1,2) _ assms(5), of cr rest] by simp
next
  case (Cons x xs)
  let ?cr = "cr\<lparr>pending := concat (map (\<lambda>x. x @ [LF]) xs) @ raw @ LF # rest, lastByte := Some LF\<rparr>"
  from Cons.prems have xs: "list_all bodyLine xs" and "bodyLine x" by simp_all
  then have x: "LF \<notin> set x" "x \<noteq> []" "payload x \<noteq> ''.''"
    by (simp_all add: bodyLine_def)
  from Cons.prems have p: "pending cr = x @ LF # (concat (map (\<lambda>x. x @ [LF]) xs) @ raw @ LF # rest)"
    by simp
  have "ReadAll rb ?cr = ((concat (map (\<lambda>x. unstuff (payload x) @ [LF]) xs), None),
            rb\<lparr>eof := True\<rparr>, ?cr\<lparr>pending := rest, lastByte := Some LF\<rparr>)"
    by (rule Cons.IH) (simp_all add: xs)
  then show ?case
    unfolding ReadAll_line [OF assms(1,2) p x] by simp
qed


lemma ReadBytes_failed:
  assumes "ReadBytes cr = ((b, Some err), cr1)"
  shows "pending cr1 = [] \<and> fin cr1 = fin cr \<and> err = fin cr"
proof (cases "dropWhile (\<lambda>c. c \<noteq> LF) (pending cr)")
  case Nil
  from assms [unfolded ReadBytes_def Let_def Nil] show ?thesis by auto
next
  case (Cons x xs)
  from assms [unfolded ReadBytes_def Let_def Cons] show ?thesis by simp
qed

lemma Read_EOF_stays:
  assumes "Read rb cr k = ((d, Some EOF), rb', cr')"
  shows "Read rb' cr' n = (([], Some EOF), rb', cr')"
proof (cases "eof rb")
  case True
  with assms show ?thesis by (simp add: Read_def)
next
  case False
  show ?thesis
  proof (cases "buf rb = []")
    case False
    with \<open>\<not> eof rb\<close> assms show ?thesis by (simp add: Read_def)
  next
    case True
    obtain b e cr1 where rd: "ReadBytes cr = ((b, e), cr1)" by (metis prod.exhaust)
    show ?thesis
    proof (cases e)
      case (Some err)
      with assms \<open>\<not> eof rb\<close> True rd have eq: "err = EOF" "rb' = rb" "cr' = cr1"
        by (simp_all add: Read_def)
      from ReadBytes_failed [OF rd [unfolded Some]] eq(1)
      have "pending cr1 = []" "fin cr1 = EOF" by simp_all
      then have "ReadBytes cr1 = (([], Some EOF), cr1)"
        by (simp add: ReadBytes_def setLast_def)
      with \<open>\<not> eof rb\<close> True eq show ?thesis by (simp add: Read_def)
    next
      case None
      with assms \<open>\<not> eof rb\<close> True rd have "eof rb'"
        by (auto simp: Read_def Let_def split: if_splits)
      then show ?thesis by (simp add: Read_def)
    qed
  qed
qed

lemma ReadAll_done:
  assumes "ReadAll rb cr = ((d, None), rb', cr')"
  shows "Read rb' cr' n = (([], Some EOF), rb', cr')"
  using assms
proof (induction rb cr arbitrary: d rule: ReadAll.induct)
  case (1 rb cr)
  obtain d1 e1 rb1 cr1 where R: "Read rb cr 512 = ((d1, e1), rb1, cr1)"
    by (metis prod.exhaust)
  show ?case
  proof (cases e1)
    case (Some err)
    with 1(2) R have "err = EOF" "rb' = rb1" "cr' = cr1"
      by (subst (asm) ReadAll.simps; simp split: if_splits)+
    with R Some show ?thesis by (auto intro: Read_EOF_stays)
  next
    case None
    obtain d2 e2 rb2 cr2 where A: "ReadAll rb1 cr1 = ((d2, e2), rb2, cr2)"
      by (metis prod.exhaust)
    with 1(2) R None have "e2 = None" "rb' = rb2" "cr' = cr2"
      by (subst (asm) ReadAll.simps; simp)+
    with A have "ReadAll rb1 cr1 = ((d2, None), rb', cr')" by simp
    with 1(1) R None show ?thesis by auto
  qed
qed

subsection \<open>A command after an unread body\<close>

text \<open>
  What \<open>discard\<close> takes off the connection, stated on the bytes: with the rest of
  the body (lines \<open>ls\<close>, then the sentinel) and a status line pending, the drain
  reads exactly through the sentinel, whatever part of the current line is still
  buffered, and \<open>cmd\<close> writes its request and takes the status line behind the
  sentinel for its reply.
\<close>

lemma discard_stale_body:
  assumes "\<not> eof rb"
    and "pending cr = concat (map (\<lambda>x. x @ [LF]) ls) @ raw @ LF # rest"
    and "list_all bodyLine ls" and "payload raw = ''.''"
  shows "discard rb cr = (None, rb\<lparr>buf := [], eof := True\<rparr>, cr\<lparr>pending := rest, lastByte := Some LF\<rparr>)"
proof -
  have "ReadAll (rb\<lparr>buf := []\<rparr>) cr =
           ((concat (map (\<lambda>x. unstuff (payload x) @ [LF]) ls), None),
            rb\<lparr>buf := []\<rparr>\<lparr>eof := True\<rparr>, cr\<lparr>pending := rest, lastByte := Some LF\<rparr>)"
    by (rule ReadAll_body [OF _ _ assms(2,3,4)]) (simp_all add: assms(1))
  then show ?thesis
    unfolding discard_def ReadAll_buffered [OF assms(1), of cr] by simp
qed

lemma cmd_after_stale_body:
  assumes "\<not> close c" and "br c = Some rb" and "\<not> eof rb" and "connErr c = None"
    and "pending (r c) = concat (map (\<lambda>x. x @ [LF]) ls) @ raw @ LF # status @ LF # rest"
    and "list_all bodyLine ls" and "payload raw = ''.''"
    and "LF \<notin> set status"
    and "TrimSpace (status @ [LF]) = digits3 code @ CHR '' '' # msg" and "code < 1000"
  shows "cmd e request c =
           ((code, msg,
             if 1 \<le> e \<and> e < 10 \<and> code div 100 \<noteq> e
                \<or> 10 \<le> e \<and> e < 100 \<and> code div 10 \<noteq> e
                \<or> 100 \<le> e \<and> e < 1000 \<and> code \<noteq> e
             then Some (Error code msg) else None),
            c\<lparr>conn := conn c @ request @ [CR, LF],
              r := (r c)\<lparr>pending := rest, lastByte := Some LF\<rparr>,
              br := None\<rparr>)"
proof -
  let ?cr = "(r c)\<lparr>pending := status @ LF # rest, lastByte := Some LF\<rparr>"
  let ?c = "c\<lparr>r := ?cr, br := None\<rparr>"
  have D: "discard rb (r c) = (None, rb\<lparr>buf := [], eof := True\<rparr>, ?cr)"
    by (rule discard_stale_body [OF assms(3,5,6,7)])
  have "cmd e request c = cmd e request ?c"
    using assms(1,2) by (simp add: cmd_def D)
  also have "cmd e request ?c =
           ((code, msg,
             if 1 \<le> e \<and> e < 10 \<and> code div 100 \<noteq> e
                \<or> 10 \<le> e \<and> e < 100 \<and> code div 10 \<noteq> e
                \<or> 100 \<le> e \<and> e < 1000 \<and> code \<noteq> e
             then Some (Error code msg) else None),
            ?c\<lparr>conn := conn ?c @ request @ [CR, LF],
              r := (r ?c)\<lparr>pending := rest, lastByte := Some LF\<rparr>\<rparr>)"
    by (rule cmd_status [OF _ _ _ _ assms(8,9,10)]) (simp_all add: assms(1,4))
  finally show ?thesis by simp
qed

subsection \<open>The loop of NewNews\<close>

lemma firstOfRuns_Some: "firstOfRuns (Some y) xs = tl (remdups_adj (y # xs))"
  by (induction xs arbitrary: y) auto

lemma firstOfRuns_None: "firstOfRuns None xs = remdups_adj xs"
  by (cases xs) (simp_all add: firstOfRuns_Some)

lemma NewNews_loop_keeps:
  assumes "w \<le> i" and "i \<le> length ids"
  shows "take (snd (NewNews_loop ids i w)) (fst (NewNews_loop ids i w))
           = take w ids @ firstOfRuns (if i = 0 then None else Some (ids ! (i - 1))) (drop i ids)"
  using assms
proof (induction ids i w rule: NewNews_loop.induct)
  case (1 ids i w)
  show ?case
  proof (cases "i < length ids")
    case False
    with 1(4) have "i = length ids" by simp
    then show ?thesis by (subst (1 2) NewNews_loop.simps) simp
  next
    case True
    define s where "s = ids ! i"
    from True have d: "drop i ids = s # drop (Suc i) ids"
      by (simp add: s_def Cons_nth_drop_Suc)
    show ?thesis
    proof (cases "i = 0 \<or> ids ! (i - 1) \<noteq> s")
      case keep: True
      let ?ids = "ids[w := s]"
      have L: "NewNews_loop ids i w = NewNews_loop ?ids (i + 1) (w + 1)"
        using True keep by (subst NewNews_loop.simps) (simp add: s_def Let_def)
      from 1(3) True have w: "w < length ids" by simp
      have nth: "?ids ! i = s" using 1(3) True by (cases "w = i") (simp_all add: s_def)
      have dr: "drop (Suc i) ?ids = drop (Suc i) ids" using 1(3) by simp
      have "?ids = take w ids @ s # drop (Suc w) ids"
        using w by (rule upd_conv_take_nth_drop)
      then have "take (Suc w) ?ids = take (Suc w) (take w ids @ s # drop (Suc w) ids)"
        by (rule arg_cong)
      also have "\<dots> = take w ids @ [s]" using w by simp
      finally have tk: "take (Suc w) ?ids = take w ids @ [s]" .
      have "take (snd (NewNews_loop ?ids (i + 1) (w + 1))) (fst (NewNews_loop ?ids (i + 1) (w + 1)))
              = take (w + 1) ?ids @ firstOfRuns (Some (?ids ! i)) (drop (i + 1) ?ids)"
        using 1(1) [OF True s_def keep] 1(3) True by simp
      also have "\<dots> = take w ids @ s # firstOfRuns (Some s) (drop (Suc i) ids)"
        by (simp add: tk nth dr)
      also have "\<dots> = take w ids @ firstOfRuns (if i = 0 then None else Some (ids ! (i - 1))) (drop i ids)"
        using keep by (auto simp: d)
      finally show ?thesis unfolding L .
    next
      case skip: False
      have L: "NewNews_loop ids i w = NewNews_loop ids (i + 1) w"
        using True skip by (subst NewNews_loop.simps) (simp add: s_def Let_def)
      have "take (snd (NewNews_loop ids (i + 1) w)) (fst (NewNews_loop ids (i + 1) w))
              = take w ids @ firstOfRuns (Some (ids ! i)) (drop (i + 1) ids)"
        using 1(2) [OF True s_def skip] 1(3) True by simp
      also have "\<dots> = take w ids @ firstOfRuns (if i = 0 then None else Some (ids ! (i - 1))) (drop i ids)"
        using skip by (auto simp: d s_def)
      finally show ?thesis unfolding L .
    qed
  qed
qed

lemma NewNews_loop_remdups_adj:
  "take (snd (NewNews_loop ids 0 0)) (fst (NewNews_loop ids 0 0)) = remdups_adj ids"
  using NewNews_loop_keeps [of 0 0 ids] by (simp add: firstOfRuns_None)


lemma strict_sorted_remdups_adj:
  fixes xs :: "'a :: linorder list"
  assumes "sorted xs"
  shows "sorted_wrt (<) (remdups_adj xs)"
  using assms
proof (induction xs rule: remdups_adj.induct)
  case (3 x y xs)
  show ?case
  proof (cases "x = y")
    case True
    with 3 show ?thesis by simp
  next
    case False
    from 3(3) have "x \<le> y" and le: "\<forall>z\<in>set xs. y \<le> z" and s: "sorted (y # xs)" by auto
    with False have "x < y" by simp
    with le have "\<forall>z\<in>set (y # xs). x < z" by auto
    moreover from 3(2) [OF False s] have "sorted_wrt (<) (remdups_adj (y # xs))" .
    ultimately show ?thesis using False by simp
  qed
qed simp_all

subsection \<open>Splitting into fields\<close>

lemma SplitN_one [simp]: "SplitN s sep (Suc 0) = [s]"
  by simp

lemma SplitN_no_sep: "sep \<notin> set s \<Longrightarrow> SplitN s sep (Suc n) = [s]"
  by simp

lemma SplitN_field:
  assumes "sep \<notin> set a"
  shows "SplitN (a @ sep # rest) sep (Suc (Suc n)) = a # SplitN rest sep (Suc n)"
proof -
  from assms have "takeWhile (\<lambda>c. c \<noteq> sep) (a @ sep # rest) = a"
    by (induction a) auto
  moreover from assms have "dropWhile (\<lambda>c. c \<noteq> sep) (a @ sep # rest) = sep # rest"
    by (induction a) auto
  ultimately show ?thesis by (simp del: SplitN.simps add: SplitN.simps(2) [of _ _ "Suc n"])
qed

lemma length_SplitN: "length (SplitN s sep n) = min n (Suc (count_list s sep))" if "0 < n"
  using that
proof (induction s sep n rule: SplitN.induct)
  case (1 s sep)
  then show ?case by simp
next
  case (2 s sep n)
  show ?case
  proof (cases "n = 0 \<or> sep \<notin> set s")
    case True
    then show ?thesis by (auto simp: count_list_0_iff)
  next
    case False
    let ?a = "takeWhile (\<lambda>c. c \<noteq> sep) s"
    let ?d = "dropWhile (\<lambda>c. c \<noteq> sep) s"
    from False have "?d \<noteq> []" by auto
    moreover have "hd ?d = sep" using \<open>?d \<noteq> []\<close> hd_dropWhile [of "\<lambda>c. c \<noteq> sep" s] by auto
    ultimately have d: "?d = sep # tl ?d" by (cases ?d) auto
    have "s = ?a @ ?d" by simp
    then have "count_list s sep = count_list ?a sep + count_list ?d sep"
      by (metis count_list_append)
    moreover have "count_list ?a sep = 0"
      by (simp add: count_list_0_iff) (metis set_takeWhileD)
    moreover have "count_list ?d sep = Suc (count_list (tl ?d) sep)"
      by (subst d) simp
    ultimately have c: "count_list s sep = Suc (count_list (tl ?d) sep)" by simp
    from False have "0 < n" by simp
    from 2(1) [OF False this] have "length (SplitN (tl ?d) sep n) = min n (Suc (count_list (tl ?d) sep))"
      by simp
    with False c show ?thesis by simp
  qed
qed


lemma SplitN_three_fields:
  assumes "sep \<notin> set f1" and "sep \<notin> set f2" and "sep \<notin> set f3"
    and "rest = [] \<or> hd rest = sep"
  shows "SplitN (f1 @ sep # f2 @ sep # f3 @ rest) sep 4
           = [f1, f2, f3] @ (if rest = [] then [] else [tl rest])"
proof -
  have 4: "(4::nat) = Suc (Suc (Suc (Suc 0)))" by simp
  have "SplitN (f1 @ sep # f2 @ sep # f3 @ rest) sep 4
          = f1 # f2 # SplitN (f3 @ rest) sep (Suc (Suc 0))"
    unfolding 4 SplitN_field [OF assms(1)] SplitN_field [OF assms(2)] ..
  also have "SplitN (f3 @ rest) sep (Suc (Suc 0)) = f3 # (if rest = [] then [] else [tl rest])"
  proof (cases rest)
    case Nil
    with assms(3) show ?thesis by (simp add: SplitN_no_sep)
  next
    case (Cons x xs)
    with assms(4) have "rest = sep # xs" by simp
    then show ?thesis unfolding \<open>rest = sep # xs\<close> SplitN_field [OF assms(3)] by simp
  qed
  finally show ?thesis by simp
qed

lemma SplitN_fields:
  assumes "\<forall>f\<in>set fs. sep \<notin> set f" and "length fs < n"
  shows "SplitN (concat (map (\<lambda>f. f @ [sep]) fs) @ rest) sep n
           = fs @ SplitN rest sep (n - length fs)"
  using assms
proof (induction fs arbitrary: n)
  case Nil
  then show ?case by simp
next
  case (Cons f fs)
  from Cons.prems(2) obtain k where n: "n = Suc (Suc k)" and k: "length fs < Suc k"
    by (cases n; cases "n - 1") auto
  from Cons.prems(1) have f: "sep \<notin> set f" and fs: "\<forall>f\<in>set fs. sep \<notin> set f" by auto
  have "SplitN (concat (map (\<lambda>f. f @ [sep]) (f # fs)) @ rest) sep n
          = SplitN (f @ sep # (concat (map (\<lambda>f. f @ [sep]) fs) @ rest)) sep (Suc (Suc k))"
    by (simp add: n del: SplitN.simps)
  also have "\<dots> = f # SplitN (concat (map (\<lambda>f. f @ [sep]) fs) @ rest) sep (Suc k)"
    by (rule SplitN_field [OF f])
  also have "SplitN (concat (map (\<lambda>f. f @ [sep]) fs) @ rest) sep (Suc k)
               = fs @ SplitN rest sep (Suc k - length fs)"
    by (rule Cons.IH [OF fs k])
  finally show ?case by (simp add: n del: SplitN.simps)
qed

subsection \<open>The loop of Overview\<close>

lemma Overview_loop_step:
  "Overview_loop parseDate zero result (line # lines) =
     (if overviewBad line then ([], Some (overviewError line))
      else Overview_loop parseDate zero (result @ [overviewRow parseDate zero line]) lines)"
  by (auto simp: overviewBad_def overviewRow_def overviewFields_def overviewError_def Let_def
           split: sum.splits)

lemma overviewError_protocol: "\<exists>m. overviewError line = ProtocolError m"
  by (simp add: overviewError_def)

lemma Overview_loop_bad:
  assumes "\<exists>line\<in>set lines. overviewBad line"
  shows "\<exists>m. Overview_loop parseDate zero result lines = ([], Some (ProtocolError m))"
  using assms
proof (induction lines arbitrary: result)
  case Nil
  then show ?case by simp
next
  case (Cons line lines)
  show ?case
  proof (cases "overviewBad line")
    case True
    with overviewError_protocol [of line] show ?thesis
      by (auto simp only: Overview_loop_step if_True)
  next
    case False
    with Cons.prems have "\<exists>line\<in>set lines. overviewBad line" by simp
    from Cons.IH [OF this] False show ?thesis
      by (simp only: Overview_loop_step if_False)
  qed
qed

lemma Overview_loop_good:
  assumes "\<forall>line\<in>set lines. \<not> overviewBad line"
  shows "Overview_loop parseDate zero result lines
           = (result @ map (overviewRow parseDate zero) lines, None)"
  using assms
proof (induction lines arbitrary: result)
  case Nil
  then show ?case by simp
next
  case (Cons line lines)
  from Cons.prems have g: "\<not> overviewBad line" "\<forall>line\<in>set lines. \<not> overviewBad line" by simp_all
  from Cons.IH [OF g(2), of "result @ [overviewRow parseDate zero line]"] g(1)
  show ?case by (simp only: Overview_loop_step if_False) simp
qed

subsection \<open>Posting and reading back\<close>

lemma split_at_LF:
  assumes "LF \<in> set s"
  shows "s = takeWhile (\<lambda>c. c \<noteq> LF) s @ LF # tl (dropWhile (\<lambda>c. c \<noteq> LF) s)"
proof -
  from assms have "dropWhile (\<lambda>c. c \<noteq> LF) s \<noteq> []" by simp
  moreover from this have "hd (dropWhile (\<lambda>c. c \<noteq> LF) s) = LF"
    using hd_dropWhile [of "\<lambda>c. c \<noteq> LF" s] by simp
  ultimately have "dropWhile (\<lambda>c. c \<noteq> LF) s = LF # tl (dropWhile (\<lambda>c. c \<noteq> LF) s)"
    by (cases "dropWhile (\<lambda>c. c \<noteq> LF) s") simp_all
  then show ?thesis by (metis takeWhile_dropWhile_id)
qed

lemma linesOf_Nil [simp]: "linesOf [] = []"
  by (simp add: linesOf.simps)

lemma linesOf_line:
  assumes "LF \<notin> set x"
  shows "linesOf (x @ LF # rest) = x # linesOf rest"
proof -
  from assms have "takeWhile (\<lambda>c. c \<noteq> LF) (x @ LF # rest) = x"
    "dropWhile (\<lambda>c. c \<noteq> LF) (x @ LF # rest) = LF # rest"
    by (induction x) auto
  then show ?thesis by (subst linesOf.simps) simp
qed

lemma linesOf_last:
  assumes "LF \<notin> set x" and "x \<noteq> []"
  shows "linesOf x = [x]"
  using assms by (subst linesOf.simps) simp

lemma linesOf_no_LF: "x \<in> set (linesOf s) \<Longrightarrow> LF \<notin> set x"
proof (induction s rule: linesOf.induct)
  case (1 s)
  show ?case
  proof (cases "s = []")
    case True
    with 1(2) show ?thesis by simp
  next
    case False
    show ?thesis
    proof (cases "LF \<in> set s")
      case True
      from 1(2) False True
      have "x = takeWhile (\<lambda>c. c \<noteq> LF) s \<or> x \<in> set (linesOf (tl (dropWhile (\<lambda>c. c \<noteq> LF) s)))"
        by (subst (asm) linesOf.simps) simp
      then show ?thesis
      proof
        assume "x = takeWhile (\<lambda>c. c \<noteq> LF) s"
        then show ?thesis by (auto dest: set_takeWhileD)
      next
        assume "x \<in> set (linesOf (tl (dropWhile (\<lambda>c. c \<noteq> LF) s)))"
        with 1(1) [OF False True] show ?thesis .
      qed
    next
      case no: False
      with 1(2) False show ?thesis by (subst (asm) linesOf.simps) simp
    qed
  qed
qed

lemma concat_linesOf:
  "concat (map (\<lambda>x. x @ [LF]) (linesOf s)) = (if s = [] \<or> last s = LF then s else s @ [LF])"
proof (induction s rule: linesOf.induct)
  case (1 s)
  show ?case
  proof (cases "s = []")
    case True
    then show ?thesis by simp
  next
    case False
    show ?thesis
    proof (cases "LF \<in> set s")
      case True
      define x where "x = takeWhile (\<lambda>c. c \<noteq> LF) s"
      define t where "t = tl (dropWhile (\<lambda>c. c \<noteq> LF) s)"
      have s: "s = x @ LF # t" unfolding x_def t_def by (rule split_at_LF [OF True])
      have L: "linesOf s = x # linesOf t"
        using False True by (subst linesOf.simps) (simp add: x_def t_def)
      from 1(1) [OF False True]
      have IH: "concat (map (\<lambda>x. x @ [LF]) (linesOf t)) = (if t = [] \<or> last t = LF then t else t @ [LF])"
        unfolding t_def .
      have "last s = (if t = [] then LF else last t)" by (subst s) simp
      then show ?thesis unfolding L using IH False by (subst (2 3) s) auto
    next
      case no: False
      with False have L: "linesOf s = [s]" by (subst linesOf.simps) simp
      from no False have "last s \<noteq> LF" using last_in_set by metis
      with False show ?thesis unfolding L by simp
    qed
  qed
qed


lemma ReadBytes_rest:
  assumes "LF \<notin> set (pending pr)"
  shows "ReadBytes pr = ((pending pr, Some (fin pr)),
                         pr\<lparr>pending := [], lastByte := setLast (pending pr) (lastByte pr)\<rparr>)"
proof -
  from assms have "\<forall>x\<in>set (pending pr). x \<noteq> LF" by auto
  then have tw: "takeWhile (\<lambda>c. c \<noteq> LF) (pending pr) = pending pr"
    and dw: "dropWhile (\<lambda>c. c \<noteq> LF) (pending pr) = []" by simp_all
  show ?thesis unfolding ReadBytes_def Let_def tw dw by simp
qed

lemma RawPost_loop_writes:
  assumes "fin pr = EOF" and "connErr c = None"
  shows "fst (RawPost_loop pr c) = None
         \<and> snd (snd (RawPost_loop pr c))
             = c\<lparr>conn := conn c @ concat (map stuffLine (linesOf (pending pr)))\<rparr>"
  using assms
proof (induction "length (pending pr)" arbitrary: pr c rule: less_induct)
  case less
  show ?case
  proof (cases "LF \<in> set (pending pr)")
    case False
    note rd = ReadBytes_rest [OF False, unfolded less.prems(1)]
    show ?thesis
    proof (cases "pending pr = []")
      case True
      then show ?thesis
        by (subst (1 2) RawPost_loop.simps) (simp add: ReadString_def rd)
    next
      case ne: False
      from False have ns: "\<not> suffix [LF] (pending pr)" by (auto simp: suffix_def)
      from False ne have L: "linesOf (pending pr) = [pending pr]" by (rule linesOf_last)
      show ?thesis
        unfolding L using ne ns less.prems(2)
        by (subst (1 2) RawPost_loop.simps)
           (simp add: ReadString_def rd Fprintf_def stuffLine_def Let_def)
    qed
  next
    case True
    define x where "x = takeWhile (\<lambda>c. c \<noteq> LF) (pending pr)"
    define t where "t = tl (dropWhile (\<lambda>c. c \<noteq> LF) (pending pr))"
    have p: "pending pr = x @ LF # t" unfolding x_def t_def by (rule split_at_LF [OF True])
    have x: "LF \<notin> set x" unfolding x_def by (auto dest: set_takeWhileD)
    let ?pr = "pr\<lparr>pending := t, lastByte := Some LF\<rparr>"
    let ?c = "c\<lparr>conn := conn c @ stuffLine x\<rparr>"
    have rd: "ReadString pr = ((x @ [LF], None), ?pr)"
      unfolding ReadString_def using p x by (rule ReadBytes_line_eq)
    have step: "RawPost_loop pr c = RawPost_loop ?pr ?c"
      using less.prems(2)
      by (subst RawPost_loop.simps) (simp add: rd Fprintf_def stuffLine_def Let_def)
    have "length (pending ?pr) < length (pending pr)" by (simp add: p)
    from less.hyps [OF this] less.prems
    have IH: "fst (RawPost_loop ?pr ?c) = None
         \<and> snd (snd (RawPost_loop ?pr ?c))
             = ?c\<lparr>conn := conn ?c @ concat (map stuffLine (linesOf (pending ?pr)))\<rparr>"
      by simp
    have L: "linesOf (pending pr) = x # linesOf t"
      unfolding p using x by (rule linesOf_line)
    show ?thesis unfolding step L using IH by simp
  qed
qed

lemma stuffLine_bodyLine:
  assumes "LF \<notin> set x"
  shows "bodyLine ((if prefix ''.'' x then ''.'' else []) @ x @ [CR])"
    and "unstuff (payload ((if prefix ''.'' x then ''.'' else []) @ x @ [CR])) = x"
proof -
  let ?w = "(if prefix ''.'' x then ''.'' else []) @ x"
  have pl: "payload (?w @ [CR]) = ?w" by (simp add: payload_def)
  have nd: "?w \<noteq> ''.''" by (cases x) auto
  from assms show "bodyLine ((if prefix ''.'' x then ''.'' else []) @ x @ [CR])"
    using pl nd by (simp add: bodyLine_def)
  have "unstuff ?w = x" by (cases x) (auto simp: unstuff_def)
  with pl show "unstuff (payload ((if prefix ''.'' x then ''.'' else []) @ x @ [CR])) = x"
    by simp
qed

lemma ReadAll_posted:
  assumes "\<forall>x\<in>set xs. LF \<notin> set x"
  shows "fst (ReadAll newBodyReader
           (newReader (concat (map stuffLine xs) @ ''.'' @ [CR, LF] @ after) e))
         = (concat (map (\<lambda>x. x @ [LF]) xs), None)"
proof -
  let ?ls = "map (\<lambda>x. (if prefix ''.'' x then ''.'' else []) @ x @ [CR]) xs"
  have w: "concat (map stuffLine xs) = concat (map (\<lambda>x. x @ [LF]) ?ls)"
    by (induction xs) (simp_all add: stuffLine_def)
  have b: "list_all bodyLine ?ls"
    using assms by (induction xs) (simp_all add: stuffLine_bodyLine(1))
  have d: "concat (map (\<lambda>x. unstuff (payload x) @ [LF]) ?ls) = concat (map (\<lambda>x. x @ [LF]) xs)"
    using assms by (induction xs) (simp_all add: stuffLine_bodyLine(2))
  have p: "pending (newReader (concat (map stuffLine xs) @ ''.'' @ [CR, LF] @ after) e)
             = concat (map (\<lambda>x. x @ [LF]) ?ls) @ (''.'' @ [CR]) @ LF # after"
    unfolding w by (simp add: newReader_def)
  have s: "payload (''.'' @ [CR]) = ''.''" by (simp add: payload_def)
  have "\<not> eof newBodyReader" "buf newBodyReader = []" by (simp_all add: newBodyReader_def)
  from ReadAll_body [OF this p b s, unfolded d] show ?thesis by simp
qed

subsection \<open>Reading the lines of a header\<close>













subsection \<open>Reading a field\<close>









subsection \<open>Reading a header block\<close>
















section \<open>Properties\<close>

text \<open>
  C10 (fails on the code).  \<open>Read\<close> is not total: when the next line of the body is
  the single byte newline, the test for a carriage return reads the byte before the
  start of the line, and \<open>Read\<close> panics.
\<close>

theorem Read_bare_newline_panics:
  "fst (Read newBodyReader (newReader [LF] EOF) 512)
     = ([], Some (Panic ''index out of range [-1]''))"
  by (simp add: Read_def newBodyReader_def newReader_def ReadBytes_def)



text \<open>
  C1 (fails on the code).  With a body outstanding, \<open>cmd\<close> calls \<open>discard\<close> before it
  writes, and on a stale body of well-formed lines this reads through the sentinel
  (\<open>cmd_after_stale_body\<close> above).  But a stale body that holds a line of a bare
  newline is not drained: \<open>Read\<close> panics inside \<open>discard\<close>, here after the line
  \<open>a\<close>, so \<open>cmd\<close> neither returns an error of the drain nor reaches the reply
  \<open>111 2024\<close>; the sentinel and the reply stay unread.
\<close>

theorem cmd_panics_on_stale_body_with_bare_newline:
  "cmd 111 ''DATE''
     ((fst (newConn (''200 hi'' @ [CR, LF] @ ''a'' @ [CR, LF] @ [LF] @ ''.'' @ [CR, LF]
                     @ ''111 2024'' @ [CR, LF]) EOF))
        \<lparr>br := Some newBodyReader\<rparr>)
     = ((0, [], Some (Panic ''index out of range [-1]'')),
        \<lparr>conn = [], connErr = None, connClosed = False,
         r = \<lparr>pending = ''.'' @ [CR, LF] @ ''111 2024'' @ [CR, LF], fin = EOF,
              lastByte = Some LF\<rparr>,
         br = Some newBodyReader, close = False\<rparr>)"
  by code_simp

text \<open>
  C2 (fails on the code).  \<open>readStrings\<close>, which decodes the line lists of LIST,
  CAPABILITIES, NEWNEWS and OVER, leaves the sentinel out but does not undo the dot
  stuffing: the line \<open>..foo\<close> comes back as \<open>..foo\<close>, where the body reader on the
  same bytes yields \<open>.foo\<close>.
\<close>

theorem readStrings_keeps_stuffed_dot:
  "fst (readStrings (fst (newConn (''200 hi'' @ [CR, LF] @ ''..foo'' @ [CR, LF] @ ''.'' @ [CR, LF]) EOF)))
     = ([''..foo''], None)
   \<and> fst (ReadAll newBodyReader
            (r (fst (newConn (''200 hi'' @ [CR, LF] @ ''..foo'' @ [CR, LF] @ ''.'' @ [CR, LF]) EOF))))
     = (''.foo'' @ [LF], None)"
  by code_simp


text \<open>
  C8.  When the NEWNEWS command is accepted and the line list \<open>ids\<close> is read,
  \<open>NewNews\<close> returns \<open>ids\<close> sorted with the first element of every run of equal
  neighbours kept.  The result is strictly increasing (sorted, no duplicates) and
  has the same elements as \<open>ids\<close>, whatever their order and multiplicity.
\<close>

theorem NewNews_sorted_without_duplicates:
  assumes "cmd 230 (''NEWNEWS '' @ grp @ '' '' @ since @ '' GMT'') c = ((code, line, None), c1)"
    and "readStrings c1 = ((ids, None), c2)"
  shows "fst (NewNews grp since c) = (remdups_adj (sort ids), None)
         \<and> sorted_wrt (<) (remdups_adj (sort ids))
         \<and> set (remdups_adj (sort ids)) = set ids"
proof -
  obtain ids' w where L: "NewNews_loop (sort ids) 0 0 = (ids', w)" by (metis prod.exhaust)
  with NewNews_loop_remdups_adj [of "sort ids"] have "take w ids' = remdups_adj (sort ids)"
    by simp
  with assms L have "fst (NewNews grp since c) = (remdups_adj (sort ids), None)"
    by (simp add: NewNews_def)
  moreover have "sorted_wrt (<) (remdups_adj (sort ids))"
    by (rule strict_sorted_remdups_adj) simp
  ultimately show ?thesis by simp
qed

theorem NewNews_sorted_without_duplicates_witness:
  "fst (NewNews ''misc'' ''20240101 000000''
         (fst (newConn (''200 hi'' @ [CR, LF] @ ''230 list follows'' @ [CR, LF]
                        @ ''<b@x>'' @ [CR, LF] @ ''<a@x>'' @ [CR, LF] @ ''<b@x>'' @ [CR, LF]
                        @ ''<a@x>'' @ [CR, LF] @ ''.'' @ [CR, LF]) EOF)))
     = ([''<a@x>'', ''<b@x>''], None)"
proof -
  define c where "c = fst (newConn (''200 hi'' @ [CR, LF] @ ''230 list follows'' @ [CR, LF]
                        @ ''<b@x>'' @ [CR, LF] @ ''<a@x>'' @ [CR, LF] @ ''<b@x>'' @ [CR, LF]
                        @ ''<a@x>'' @ [CR, LF] @ ''.'' @ [CR, LF]) EOF)"
  define c1 where "c1 = snd (cmd 230 (''NEWNEWS '' @ ''misc'' @ '' '' @ ''20240101 000000'' @ '' GMT'') c)"
  define c2 where "c2 = snd (readStrings c1)"
  have h1: "cmd 230 (''NEWNEWS '' @ ''misc'' @ '' '' @ ''20240101 000000'' @ '' GMT'') c
              = ((230, ''list follows'', None), c1)"
    unfolding c1_def c_def by code_simp
  have h2: "readStrings c1 = (([''<b@x>'', ''<a@x>'', ''<b@x>'', ''<a@x>''], None), c2)"
    unfolding c2_def c1_def c_def by code_simp
  have s: "remdups_adj (sort [''<b@x>'', ''<a@x>'', ''<b@x>'', ''<a@x>'']) = [''<a@x>'', ''<b@x>'']"
    by code_simp
  from NewNews_sorted_without_duplicates [OF h1 h2]
  show ?thesis unfolding c_def [symmetric] s by simp
qed

text \<open>
  C9 (corrected).  The claim speaks of white-space-delimited tokens; \<open>Group\<close> cuts the
  reply text at single space characters only.  A reply whose numbers are separated by
  tabs, or by two spaces, is a protocol error.
\<close>

theorem Group_tab_separated_counterexample:
  "fst (Group ''comp.lang.misc''
         (fst (newConn (''200 hi'' @ [CR, LF] @ ''211 4'' @ [TAB] @ ''1'' @ [TAB] @ ''4''
                        @ [CR, LF]) EOF)))
     = (0, 0, 0, Some (ProtocolError (''bad group response: 4'' @ [TAB] @ ''1'' @ [TAB] @ ''4'')))
   \<and> fst (Group ''comp.lang.misc''
         (fst (newConn (''200 hi'' @ [CR, LF] @ ''211 4  1 4 comp.lang.misc'' @ [CR, LF]) EOF)))
     = (0, 0, 0, Some (ProtocolError ''bad group response: 4  1 4 comp.lang.misc''))"
  by code_simp

text \<open>
  C9 as amended.  \<open>Group\<close> cuts the text of an accepted reply at single spaces into at
  most 4 fields.  With fewer than two spaces there are fewer than 3 fields and the
  result is a protocol error.  Otherwise the text is three space-free fields, alone or
  followed by a space and any further text: if one of the three fails to parse as an
  integer the result is a protocol error, else the three integers are returned as
  number, low and high, whatever the further text is.  The reply
  \<open>211 4 1 4 comp.lang.misc\<close> yields 4, 1, 4 and no error.
\<close>

theorem Group_parses_reply:
  assumes "cmd 211 (''GROUP '' @ grp) c = ((code, line, None), c1)"
  shows "length (SplitN line (CHR '' '') 4) \<le> 4
         \<and> (count_list line (CHR '' '') < 2 \<longrightarrow>
              fst (Group grp c) = (0, 0, 0, Some (ProtocolError (''bad group response: '' @ line))))
         \<and> (\<forall>f1 f2 f3 rest.
              line = f1 @ CHR '' '' # f2 @ CHR '' '' # f3 @ rest
              \<and> CHR '' '' \<notin> set f1 \<and> CHR '' '' \<notin> set f2 \<and> CHR '' '' \<notin> set f3
              \<and> (rest = [] \<or> hd rest = CHR '' '') \<longrightarrow>
              fst (Group grp c) =
                (if isl (Atoi f1) \<or> isl (Atoi f2) \<or> isl (Atoi f3)
                 then (0, 0, 0, Some (ProtocolError (''bad group response: '' @ line)))
                 else (projr (Atoi f1), projr (Atoi f2), projr (Atoi f3), None)))"
proof (intro conjI allI impI)
  show "length (SplitN line (CHR '' '') 4) \<le> 4"
    by (simp add: length_SplitN)
next
  assume "count_list line (CHR '' '') < 2"
  then have "length (SplitN line (CHR '' '') 4) < 3"
    by (simp add: length_SplitN)
  with assms show "fst (Group grp c) = (0, 0, 0, Some (ProtocolError (''bad group response: '' @ line)))"
    by (simp add: Group_def Let_def)
next
  fix f1 f2 f3 rest
  assume h: "line = f1 @ CHR '' '' # f2 @ CHR '' '' # f3 @ rest
              \<and> CHR '' '' \<notin> set f1 \<and> CHR '' '' \<notin> set f2 \<and> CHR '' '' \<notin> set f3
              \<and> (rest = [] \<or> hd rest = CHR '' '')"
  define ss where "ss = SplitN line (CHR '' '') 4"
  from h have l: "line = f1 @ CHR '' '' # f2 @ CHR '' '' # f3 @ rest"
    and n: "CHR '' '' \<notin> set f1" "CHR '' '' \<notin> set f2" "CHR '' '' \<notin> set f3"
      "rest = [] \<or> hd rest = CHR '' ''"
    by blast+
  have ss: "ss = [f1, f2, f3] @ (if rest = [] then [] else [tl rest])"
    unfolding ss_def l by (rule SplitN_three_fields [OF n])
  then have f: "\<not> length ss < 3" "ss ! 0 = f1" "ss ! 1 = f2" "ss ! 2 = f3"
    by simp_all
  have G: "fst (Group grp c) =
          (if length ss < 3 then (0, 0, 0, Some (ProtocolError (''bad group response: '' @ line)))
             else
               (case Atoi (ss ! 0) of
                  Inl _ \<Rightarrow> (0, 0, 0, Some (ProtocolError (''bad group response: '' @ line)))
                | Inr n0 \<Rightarrow>
                    (case Atoi (ss ! 1) of
                       Inl _ \<Rightarrow>
                         (0, 0, 0, Some (ProtocolError (''bad group response: '' @ line)))
                     | Inr n1 \<Rightarrow>
                         (case Atoi (ss ! 2) of
                            Inl _ \<Rightarrow>
                              (0, 0, 0, Some (ProtocolError (''bad group response: '' @ line)))
                          | Inr n2 \<Rightarrow> (n0, n1, n2, None)))))"
    unfolding Group_def assms ss_def by (simp add: Let_def split: sum.splits)
  show "fst (Group grp c) =
                (if isl (Atoi f1) \<or> isl (Atoi f2) \<or> isl (Atoi f3)
                 then (0, 0, 0, Some (ProtocolError (''bad group response: '' @ line)))
                 else (projr (Atoi f1), projr (Atoi f2), projr (Atoi f3), None))"
    unfolding G f(2-4) using f(1) by (simp split: sum.splits)
qed

theorem Group_parses_reply_witness:
  "fst (Group ''comp.lang.misc''
         (fst (newConn (''200 hi'' @ [CR, LF] @ ''211 4 1 4 comp.lang.misc'' @ [CR, LF]) EOF)))
     = (4, 1, 4, None)"
proof -
  define c where "c = fst (newConn (''200 hi'' @ [CR, LF] @ ''211 4 1 4 comp.lang.misc'' @ [CR, LF]) EOF)"
  define c1 where "c1 = snd (cmd 211 (''GROUP '' @ ''comp.lang.misc'') c)"
  have h: "cmd 211 (''GROUP '' @ ''comp.lang.misc'') c = ((211, ''4 1 4 comp.lang.misc'', None), c1)"
    unfolding c1_def c_def by code_simp
  have l: "''4 1 4 comp.lang.misc'' = ''4'' @ CHR '' '' # ''1'' @ CHR '' '' # ''4'' @ '' comp.lang.misc''
              \<and> CHR '' '' \<notin> set ''4'' \<and> CHR '' '' \<notin> set ''1'' \<and> CHR '' '' \<notin> set ''4''
              \<and> ('' comp.lang.misc'' = [] \<or> hd '' comp.lang.misc'' = CHR '' '')"
    by simp
  have a: "Atoi ''4'' = Inr 4" "Atoi ''1'' = Inr 1" by code_simp+
  from Group_parses_reply [OF h] l
  have "fst (Group ''comp.lang.misc'' c) =
                (if isl (Atoi ''4'') \<or> isl (Atoi ''1'') \<or> isl (Atoi ''4'')
                 then (0, 0, 0, Some (ProtocolError (''bad group response: '' @ ''4 1 4 comp.lang.misc'')))
                 else (projr (Atoi ''4''), projr (Atoi ''1''), projr (Atoi ''4''), None))"
    by blast
  then show ?thesis unfolding c_def a by simp
qed



text \<open>
  C7 (corrected).  \<open>Overview\<close> removes the white space at both ends of a line before it
  splits it, so a ninth field that ends in a space does not reach \<open>Extra\<close> verbatim.
\<close>

theorem Overview_trims_extra_counterexample:
  "fst (Overview (\<lambda>s. Inl NumError) (0::nat) 1 10
         (fst (newConn (''200 hi'' @ [CR, LF] @ ''224 overview follows'' @ [CR, LF]
                 @ ''3'' @ [TAB] @ ''Hello'' @ [TAB] @ ''user@x'' @ [TAB]
                 @ ''01 Jan 24 00:00:00 GMT'' @ [TAB] @ ''<id1@x>'' @ [TAB]
                 @ ''<id0@x> <id-1@x>'' @ [TAB] @ ''120'' @ [TAB] @ ''5'' @ [TAB]
                 @ ''Xref: a '' @ [CR, LF] @ ''.'' @ [CR, LF]) EOF)))
     = ([\<lparr>MessageNumber = 3, Subject = ''Hello'', From = ''user@x'', Date = 0,
          MessageId = ''<id1@x>'', References = [''<id0@x>'', ''<id-1@x>''],
          Bytes = 120, Lines = 5, Extra = [''Xref: a'']\<rparr>], None)"
  by code_simp

text \<open>
  C7 as amended.  Take every line of an accepted OVER reply with the white space at its
  two ends removed and split it at tabs into at most 9 fields.  If some line has fewer
  than 8 fields, or a first, seventh or eighth field that does not parse as an integer,
  \<open>Overview\<close> returns a protocol error for the whole call.  Otherwise it returns one row
  per line, in order: the three numbers parsed, the text fields as they are, the date
  as parsed or, when \<open>parseDate\<close> fails, the zero time with no error, and in \<open>Extra\<close>
  what follows the eighth field.  That ninth field is everything behind the eighth
  tab of the trimmed line, further tabs included.
\<close>

theorem Overview_decodes_lines:
  assumes "cmd 224 (''OVER '' @ Itoa begin @ ''-'' @ Itoa end) c = ((code, txt, None), c1)"
    and "readStrings c1 = ((lines, None), c2)"
  shows "((\<exists>line\<in>set lines.
             length (SplitN (TrimSpace line) TAB 9) < 8
             \<or> isl (Atoi (SplitN (TrimSpace line) TAB 9 ! 0))
             \<or> isl (Atoi (SplitN (TrimSpace line) TAB 9 ! 6))
             \<or> isl (Atoi (SplitN (TrimSpace line) TAB 9 ! 7))) \<longrightarrow>
          (\<exists>m. fst (Overview parseDate zero begin end c) = ([], Some (ProtocolError m))))
         \<and> ((\<forall>line\<in>set lines.
                8 \<le> length (SplitN (TrimSpace line) TAB 9)
                \<and> \<not> isl (Atoi (SplitN (TrimSpace line) TAB 9 ! 0))
                \<and> \<not> isl (Atoi (SplitN (TrimSpace line) TAB 9 ! 6))
                \<and> \<not> isl (Atoi (SplitN (TrimSpace line) TAB 9 ! 7))) \<longrightarrow>
             fst (Overview parseDate zero begin end c) =
               (map (\<lambda>line.
                       \<lparr>MessageNumber = projr (Atoi (SplitN (TrimSpace line) TAB 9 ! 0)),
                        Subject = SplitN (TrimSpace line) TAB 9 ! 1,
                        From = SplitN (TrimSpace line) TAB 9 ! 2,
                        Date = (case parseDate (SplitN (TrimSpace line) TAB 9 ! 3) of
                                  Inl _ \<Rightarrow> zero | Inr t \<Rightarrow> t),
                        MessageId = SplitN (TrimSpace line) TAB 9 ! 4,
                        References = Split (SplitN (TrimSpace line) TAB 9 ! 5) (CHR '' ''),
                        Bytes = projr (Atoi (SplitN (TrimSpace line) TAB 9 ! 6)),
                        Lines = projr (Atoi (SplitN (TrimSpace line) TAB 9 ! 7)),
                        Extra = drop 8 (SplitN (TrimSpace line) TAB 9)\<rparr>) lines,
                None))
         \<and> (\<forall>line fs rest.
                TrimSpace line = concat (map (\<lambda>f. f @ [TAB]) fs) @ rest
                \<and> length fs = 8 \<and> (\<forall>f\<in>set fs. TAB \<notin> set f) \<longrightarrow>
                drop 8 (SplitN (TrimSpace line) TAB 9) = [rest])"
proof (intro conjI impI allI)
  assume "\<exists>line\<in>set lines.
             length (SplitN (TrimSpace line) TAB 9) < 8
             \<or> isl (Atoi (SplitN (TrimSpace line) TAB 9 ! 0))
             \<or> isl (Atoi (SplitN (TrimSpace line) TAB 9 ! 6))
             \<or> isl (Atoi (SplitN (TrimSpace line) TAB 9 ! 7))"
  then have "\<exists>line\<in>set lines. overviewBad line"
    by (simp add: overviewBad_def overviewFields_def)
  from Overview_loop_bad [OF this, of parseDate zero "[]"] assms
  show "\<exists>m. fst (Overview parseDate zero begin end c) = ([], Some (ProtocolError m))"
    by (auto simp: Overview_def)
next
  assume "\<forall>line\<in>set lines.
                8 \<le> length (SplitN (TrimSpace line) TAB 9)
                \<and> \<not> isl (Atoi (SplitN (TrimSpace line) TAB 9 ! 0))
                \<and> \<not> isl (Atoi (SplitN (TrimSpace line) TAB 9 ! 6))
                \<and> \<not> isl (Atoi (SplitN (TrimSpace line) TAB 9 ! 7))"
  then have "\<forall>line\<in>set lines. \<not> overviewBad line"
    by (auto simp: overviewBad_def overviewFields_def)
  from Overview_loop_good [OF this, of parseDate zero "[]"] assms
  have "fst (Overview parseDate zero begin end c) = (map (overviewRow parseDate zero) lines, None)"
    by (simp add: Overview_def)
  then show "fst (Overview parseDate zero begin end c) =
               (map (\<lambda>line.
                       \<lparr>MessageNumber = projr (Atoi (SplitN (TrimSpace line) TAB 9 ! 0)),
                        Subject = SplitN (TrimSpace line) TAB 9 ! 1,
                        From = SplitN (TrimSpace line) TAB 9 ! 2,
                        Date = (case parseDate (SplitN (TrimSpace line) TAB 9 ! 3) of
                                  Inl _ \<Rightarrow> zero | Inr t \<Rightarrow> t),
                        MessageId = SplitN (TrimSpace line) TAB 9 ! 4,
                        References = Split (SplitN (TrimSpace line) TAB 9 ! 5) (CHR '' ''),
                        Bytes = projr (Atoi (SplitN (TrimSpace line) TAB 9 ! 6)),
                        Lines = projr (Atoi (SplitN (TrimSpace line) TAB 9 ! 7)),
                        Extra = drop 8 (SplitN (TrimSpace line) TAB 9)\<rparr>) lines,
                None)"
    unfolding overviewRow_def overviewFields_def .
next
  fix line fs rest
  assume h: "TrimSpace line = concat (map (\<lambda>f. f @ [TAB]) fs) @ rest
                \<and> length fs = 8 \<and> (\<forall>f\<in>set fs. TAB \<notin> set f)"
  then have t: "TrimSpace line = concat (map (\<lambda>f. f @ [TAB]) fs) @ rest"
    and l: "length fs = 8" and f: "\<forall>f\<in>set fs. TAB \<notin> set f" by blast+
  from l have "length fs < 9" by simp
  from SplitN_fields [OF f this, of rest] l
  show "drop 8 (SplitN (TrimSpace line) TAB 9) = [rest]"
    unfolding t by simp
qed


theorem Overview_decodes_lines_witness:
  "fst (Overview (\<lambda>s. Inl NumError) (0::nat) 1 10
         (fst (newConn (''200 hi'' @ [CR, LF] @ ''224 overview follows'' @ [CR, LF]
                 @ ''3'' @ [TAB] @ ''Hello'' @ [TAB] @ ''user@x'' @ [TAB]
                 @ ''01 Jan 24 00:00:00 GMT'' @ [TAB] @ ''<id1@x>'' @ [TAB]
                 @ ''<id0@x> <id-1@x>'' @ [TAB] @ ''120'' @ [TAB] @ ''5'' @ [TAB]
                 @ ''Xref: a'' @ [TAB] @ ''b'' @ [CR, LF] @ ''.'' @ [CR, LF]) EOF)))
     = ([\<lparr>MessageNumber = 3, Subject = ''Hello'', From = ''user@x'', Date = 0,
          MessageId = ''<id1@x>'', References = [''<id0@x>'', ''<id-1@x>''],
          Bytes = 120, Lines = 5, Extra = [''Xref: a'' @ [TAB] @ ''b'']\<rparr>], None)
   \<and> (\<exists>m. fst (Overview (\<lambda>s. Inl NumError) (0::nat) 1 10
               (fst (newConn (''200 hi'' @ [CR, LF] @ ''224 overview follows'' @ [CR, LF]
                 @ ''3'' @ [TAB] @ ''Hello'' @ [TAB] @ ''user@x'' @ [TAB]
                 @ ''01 Jan 24 00:00:00 GMT'' @ [TAB] @ ''<id1@x>'' @ [TAB]
                 @ ''<id0@x> <id-1@x>'' @ [TAB] @ ''120'' @ [TAB] @ ''five''
                 @ [CR, LF] @ ''.'' @ [CR, LF]) EOF)))
          = ([], Some (ProtocolError m)))"
proof
  define L where "L = ''3'' @ [TAB] @ ''Hello'' @ [TAB] @ ''user@x'' @ [TAB]
                 @ ''01 Jan 24 00:00:00 GMT'' @ [TAB] @ ''<id1@x>'' @ [TAB]
                 @ ''<id0@x> <id-1@x>'' @ [TAB] @ ''120'' @ [TAB] @ ''5'' @ [TAB]
                 @ ''Xref: a'' @ [TAB] @ ''b''"
  define c where "c = fst (newConn (''200 hi'' @ [CR, LF] @ ''224 overview follows'' @ [CR, LF]
                 @ ''3'' @ [TAB] @ ''Hello'' @ [TAB] @ ''user@x'' @ [TAB]
                 @ ''01 Jan 24 00:00:00 GMT'' @ [TAB] @ ''<id1@x>'' @ [TAB]
                 @ ''<id0@x> <id-1@x>'' @ [TAB] @ ''120'' @ [TAB] @ ''5'' @ [TAB]
                 @ ''Xref: a'' @ [TAB] @ ''b'' @ [CR, LF] @ ''.'' @ [CR, LF]) EOF)"
  define c1 where "c1 = snd (cmd 224 (''OVER '' @ Itoa 1 @ ''-'' @ Itoa 10) c)"
  define c2 where "c2 = snd (readStrings c1)"
  have h1: "cmd 224 (''OVER '' @ Itoa 1 @ ''-'' @ Itoa 10) c = ((224, ''overview follows'', None), c1)"
    unfolding c1_def c_def by code_simp
  have h2: "readStrings c1 = (([L], None), c2)"
    unfolding c2_def c1_def c_def L_def by code_simp
  have e: "SplitN (TrimSpace L) TAB 9
             = [''3'', ''Hello'', ''user@x'', ''01 Jan 24 00:00:00 GMT'', ''<id1@x>'',
                ''<id0@x> <id-1@x>'', ''120'', ''5'', ''Xref: a'' @ [TAB] @ ''b'']"
    unfolding L_def by code_simp
  have a: "Atoi ''3'' = Inr 3" "Atoi ''120'' = Inr 120" "Atoi ''5'' = Inr 5"
    "Split ''<id0@x> <id-1@x>'' (CHR '' '') = [''<id0@x>'', ''<id-1@x>'']"
    by code_simp+
  from Overview_decodes_lines [OF h1 h2, of "\<lambda>s. Inl NumError" "0::nat"]
  show "fst (Overview (\<lambda>s. Inl NumError) (0::nat) 1 10
         (fst (newConn (''200 hi'' @ [CR, LF] @ ''224 overview follows'' @ [CR, LF]
                 @ ''3'' @ [TAB] @ ''Hello'' @ [TAB] @ ''user@x'' @ [TAB]
                 @ ''01 Jan 24 00:00:00 GMT'' @ [TAB] @ ''<id1@x>'' @ [TAB]
                 @ ''<id0@x> <id-1@x>'' @ [TAB] @ ''120'' @ [TAB] @ ''5'' @ [TAB]
                 @ ''Xref: a'' @ [TAB] @ ''b'' @ [CR, LF] @ ''.'' @ [CR, LF]) EOF)))
     = ([\<lparr>MessageNumber = 3, Subject = ''Hello'', From = ''user@x'', Date = 0,
          MessageId = ''<id1@x>'', References = [''<id0@x>'', ''<id-1@x>''],
          Bytes = 120, Lines = 5, Extra = [''Xref: a'' @ [TAB] @ ''b'']\<rparr>], None)"
    unfolding c_def [symmetric] by (simp add: e a)
next
  define L where "L = ''3'' @ [TAB] @ ''Hello'' @ [TAB] @ ''user@x'' @ [TAB]
                 @ ''01 Jan 24 00:00:00 GMT'' @ [TAB] @ ''<id1@x>'' @ [TAB]
                 @ ''<id0@x> <id-1@x>'' @ [TAB] @ ''120'' @ [TAB] @ ''five''"
  define c where "c = fst (newConn (''200 hi'' @ [CR, LF] @ ''224 overview follows'' @ [CR, LF]
                 @ ''3'' @ [TAB] @ ''Hello'' @ [TAB] @ ''user@x'' @ [TAB]
                 @ ''01 Jan 24 00:00:00 GMT'' @ [TAB] @ ''<id1@x>'' @ [TAB]
                 @ ''<id0@x> <id-1@x>'' @ [TAB] @ ''120'' @ [TAB] @ ''five''
                 @ [CR, LF] @ ''.'' @ [CR, LF]) EOF)"
  define c1 where "c1 = snd (cmd 224 (''OVER '' @ Itoa 1 @ ''-'' @ Itoa 10) c)"
  define c2 where "c2 = snd (readStrings c1)"
  have h1: "cmd 224 (''OVER '' @ Itoa 1 @ ''-'' @ Itoa 10) c = ((224, ''overview follows'', None), c1)"
    unfolding c1_def c_def by code_simp
  have h2: "readStrings c1 = (([L], None), c2)"
    unfolding c2_def c1_def c_def L_def by code_simp
  have e: "isl (Atoi (SplitN (TrimSpace L) TAB 9 ! 7))"
    unfolding L_def by code_simp
  from Overview_decodes_lines [OF h1 h2, of "\<lambda>s. Inl NumError" "0::nat"] e
  show "\<exists>m. fst (Overview (\<lambda>s. Inl NumError) (0::nat) 1 10
               (fst (newConn (''200 hi'' @ [CR, LF] @ ''224 overview follows'' @ [CR, LF]
                 @ ''3'' @ [TAB] @ ''Hello'' @ [TAB] @ ''user@x'' @ [TAB]
                 @ ''01 Jan 24 00:00:00 GMT'' @ [TAB] @ ''<id1@x>'' @ [TAB]
                 @ ''<id0@x> <id-1@x>'' @ [TAB] @ ''120'' @ [TAB] @ ''five''
                 @ [CR, LF] @ ''.'' @ [CR, LF]) EOF)))
          = ([], Some (ProtocolError m))"
    unfolding c_def [symmetric] by simp
qed

text \<open>
  C4 (corrected).  Posting works on lines, and the last line of a body is sent with a line
  ending whether or not it had one: the body \<open>abc\<close> is decoded as \<open>abc\<close> followed by
  a newline, not as the original content.
\<close>

theorem RawPost_last_line_counterexample:
  "conn (snd (RawPost (newReader ''abc'' EOF)
           (fst (newConn (''200 hi'' @ [CR, LF] @ ''340 send it'' @ [CR, LF]
                          @ ''240 posted'' @ [CR, LF]) EOF))))
     = ''POST'' @ [CR, LF] @ ''abc'' @ [CR, LF] @ ''.'' @ [CR, LF]
   \<and> fst (ReadAll newBodyReader (newReader (''abc'' @ [CR, LF] @ ''.'' @ [CR, LF]) EOF))
     = (''abc'' @ [LF], None)
   \<and> ''abc'' @ [LF] \<noteq> ''abc''"
  by code_simp

text \<open>
  C4 as amended.  When the server accepts the POST command and the article, \<open>RawPost\<close>
  transmits every line of the content with a leading dot doubled and the line ending
  carriage return, newline, and then the sentinel line.  The body reader, reading
  these bytes, yields the original content when that is empty or ends with a newline,
  and the original content followed by one newline otherwise.  In particular the body
  line \<open>..escaped\<close> travels as \<open>...escaped\<close> and is decoded as \<open>..escaped\<close>.
\<close>

theorem RawPost_round_trip:
  assumes "\<not> close c" and "br c = None" and "connErr c = None"
    and "pending (r c) = s1 @ LF # s2 @ LF # rest" and "LF \<notin> set s1" and "LF \<notin> set s2"
    and "TrimSpace (s1 @ [LF]) = digits3 k @ CHR '' '' # m1" and "k < 1000" and "k div 100 = 3"
    and "TrimSpace (s2 @ [LF]) = digits3 240 @ CHR '' '' # m2"
  shows "fst (RawPost (newReader content EOF) c) = None
         \<and> conn (snd (RawPost (newReader content EOF) c))
             = conn c @ ''POST'' @ [CR, LF]
               @ concat (map stuffLine (linesOf content)) @ ''.'' @ [CR, LF]
         \<and> (\<forall>after e.
               fst (ReadAll newBodyReader
                      (newReader (concat (map stuffLine (linesOf content))
                                  @ ''.'' @ [CR, LF] @ after) e))
               = (if content = [] \<or> last content = LF then content else content @ [LF],
                  None))"
proof -
  let ?W = "concat (map stuffLine (linesOf content))"
  let ?r1 = "(r c)\<lparr>pending := s2 @ LF # rest, lastByte := Some LF\<rparr>"
  let ?c1 = "c\<lparr>conn := conn c @ ''POST'' @ [CR, LF], r := ?r1\<rparr>"
  let ?c2 = "?c1\<lparr>conn := conn ?c1 @ ?W\<rparr>"
  let ?c3 = "?c2\<lparr>conn := conn ?c2 @ ''.'' @ [CR, LF],
                 r := (r ?c2)\<lparr>pending := rest, lastByte := Some LF\<rparr>\<rparr>"
  have A: "cmd 3 ''POST'' c = ((k, m1, None), ?c1)"
    using cmd_status [OF assms(1-5,7,8), of 3 "''POST''"] assms(9) by simp
  obtain e2 pr2 c2 where L: "RawPost_loop (newReader content EOF) ?c1 = (e2, pr2, c2)"
    by (metis prod.exhaust)
  have "fin (newReader content EOF) = EOF" "connErr ?c1 = None"
    by (simp_all add: newReader_def assms(3))
  from RawPost_loop_writes [OF this] L have L2: "e2 = None" "c2 = ?c2"
    by (simp_all add: newReader_def)
  have B: "cmd 240 ''.'' ?c2 = ((240, m2, None), ?c3)"
    using cmd_status [of ?c2 s2 rest 240 m2 240 "''.''"] assms(1,2,3,6,10) by simp
  have R: "RawPost (newReader content EOF) c = (None, ?c3)"
    unfolding RawPost_def A using L L2 B by simp
  have "\<forall>x\<in>set (linesOf content). LF \<notin> set x" by (auto dest: linesOf_no_LF)
  from ReadAll_posted [OF this]
  have D: "\<And>after e. fst (ReadAll newBodyReader (newReader (?W @ ''.'' @ [CR, LF] @ after) e))
               = (if content = [] \<or> last content = LF then content else content @ [LF], None)"
    unfolding concat_linesOf .
  show ?thesis unfolding R using D by simp
qed

theorem RawPost_round_trip_witness:
  "fst (RawPost (newReader (''Subject: x'' @ [LF, LF] @ ''..escaped'' @ [LF] @ ''.'' @ [LF]) EOF)
         (fst (newConn (''200 hi'' @ [CR, LF] @ ''340 send it'' @ [CR, LF]
                        @ ''240 posted'' @ [CR, LF]) EOF))) = None
   \<and> conn (snd (RawPost (newReader (''Subject: x'' @ [LF, LF] @ ''..escaped'' @ [LF] @ ''.'' @ [LF]) EOF)
         (fst (newConn (''200 hi'' @ [CR, LF] @ ''340 send it'' @ [CR, LF]
                        @ ''240 posted'' @ [CR, LF]) EOF))))
       = ''POST'' @ [CR, LF] @ ''Subject: x'' @ [CR, LF] @ [CR, LF] @ ''...escaped'' @ [CR, LF]
         @ ''..'' @ [CR, LF] @ ''.'' @ [CR, LF]
   \<and> fst (ReadAll newBodyReader
            (newReader (''Subject: x'' @ [CR, LF] @ [CR, LF] @ ''...escaped'' @ [CR, LF]
                        @ ''..'' @ [CR, LF] @ ''.'' @ [CR, LF]) EOF))
       = (''Subject: x'' @ [LF, LF] @ ''..escaped'' @ [LF] @ ''.'' @ [LF], None)"
proof -
  define c where "c = fst (newConn (''200 hi'' @ [CR, LF] @ ''340 send it'' @ [CR, LF]
                        @ ''240 posted'' @ [CR, LF]) EOF)"
  define content where "content = ''Subject: x'' @ [LF, LF] @ ''..escaped'' @ [LF] @ ''.'' @ [LF]"
  have h: "\<not> close c" "br c = None" "connErr c = None"
    "pending (r c) = (''340 send it'' @ [CR]) @ LF # (''240 posted'' @ [CR]) @ LF # []"
    "LF \<notin> set (''340 send it'' @ [CR])" "LF \<notin> set (''240 posted'' @ [CR])"
    unfolding c_def by code_simp+
  have t: "TrimSpace ((''340 send it'' @ [CR]) @ [LF]) = digits3 340 @ CHR '' '' # ''send it''"
    "(340::nat) < 1000" "(340::nat) div 100 = 3"
    "TrimSpace ((''240 posted'' @ [CR]) @ [LF]) = digits3 240 @ CHR '' '' # ''posted''"
    by code_simp+
  have w: "concat (map stuffLine (linesOf content))
             = ''Subject: x'' @ [CR, LF] @ [CR, LF] @ ''...escaped'' @ [CR, LF] @ ''..'' @ [CR, LF]"
    unfolding content_def by code_simp
  have l: "(if content = [] \<or> last content = LF then content else content @ [LF]) = content"
    unfolding content_def by simp
  have e: "conn c = []" unfolding c_def by code_simp
  from RawPost_round_trip [OF h t, of content]
  have "fst (RawPost (newReader content EOF) c) = None
     \<and> conn (snd (RawPost (newReader content EOF) c))
         = ''POST'' @ [CR, LF] @ (''Subject: x'' @ [CR, LF] @ [CR, LF] @ ''...escaped'' @ [CR, LF]
             @ ''..'' @ [CR, LF]) @ ''.'' @ [CR, LF]
     \<and> fst (ReadAll newBodyReader
            (newReader ((''Subject: x'' @ [CR, LF] @ [CR, LF] @ ''...escaped'' @ [CR, LF]
                        @ ''..'' @ [CR, LF]) @ ''.'' @ [CR, LF] @ []) EOF))
         = (content, None)"
    unfolding w l e by simp
  then show ?thesis unfolding c_def content_def by simp
qed







end
